theory Spec2Isabelle
  imports Complex_Main
begin

section \<open>Values of the program\<close>

text \<open>
  The exceptions the interpreter raises in \<^verbatim>\<open>server/ga.py\<close>. A function that can raise
  has a result of type \<open>error + 'a\<close>: \<open>Inl\<close> carries the exception raised,
  \<open>Inr\<close> the value returned.
\<close>

datatype error = ZeroDivisionError | ValueError | IndexError | KeyError

definition bindE :: "error + 'a \<Rightarrow> ('a \<Rightarrow> error + 'b) \<Rightarrow> error + 'b" where
  "bindE m f = (case m of Inl e \<Rightarrow> Inl e | Inr x \<Rightarrow> f x)"

text \<open>
  A path distance is a number or \<^verbatim>\<open>float('inf')\<close>. Edge weights are finite reals (the
  graph builder stores Manhattan distances); the arithmetic is that of the reals, not of
  IEEE doubles, and there is neither a NaN nor a negative infinity.
\<close>

datatype dist = Fin real | PInf

instantiation dist :: "{comm_monoid_add, linorder}"
begin

definition zero_dist :: dist where
  "zero_dist = Fin 0"

fun plus_dist :: "dist \<Rightarrow> dist \<Rightarrow> dist" where
  "plus_dist (Fin a) (Fin b) = Fin (a + b)"
| "plus_dist PInf _ = PInf"
| "plus_dist (Fin _) PInf = PInf"

fun less_eq_dist :: "dist \<Rightarrow> dist \<Rightarrow> bool" where
  "less_eq_dist (Fin a) (Fin b) = (a \<le> b)"
| "less_eq_dist _ PInf = True"
| "less_eq_dist PInf (Fin _) = False"

definition less_dist :: "dist \<Rightarrow> dist \<Rightarrow> bool" where
  "less_dist x y = (x \<le> y \<and> \<not> y \<le> x)"

instance
proof
  fix p q r :: dist
  show "p \<le> p"
    by (cases p; simp)
  show "(p < q) = (p \<le> q \<and> \<not> q \<le> p)"
    unfolding less_dist_def ..
  show "p \<le> q \<or> q \<le> p"
    by (cases p; cases q; simp; linarith)
  show "p = q" if "p \<le> q" and "q \<le> p"
    using that by (cases p; cases q; simp)
  show "p \<le> r" if "p \<le> q" and "q \<le> r"
    using that by (cases p; cases q; cases r; simp)
  show "0 + p = p"
    unfolding zero_dist_def by (cases p; simp)
  show "p + q = q + p"
    by (cases p; cases q; simp)
  show "(p + q) + r = p + (q + r)"
    by (cases p; cases q; cases r; simp)
qed

end

section \<open>The random source\<close>

text \<open>
  The module \<^verbatim>\<open>random\<close> is a hidden global generator. Here it is an explicit tape of
  the raw draws, threaded through every function that consumes randomness; a tape that
  runs out keeps yielding 0. A statement for every tape is a statement for every outcome
  of the random choices.
\<close>

type_synonym rng = "nat list"

fun next_draw :: "rng \<Rightarrow> nat \<times> rng" where
  "next_draw [] = (0, [])"
| "next_draw (d # ds) = (d, ds)"

text \<open>\<^verbatim>\<open>random.randint(a, b)\<close>: an integer of \<open>[a, b]\<close>; ValueError on an empty range.\<close>

definition randint :: "int \<Rightarrow> int \<Rightarrow> rng \<Rightarrow> error + (int \<times> rng)" where
  "randint a b r =
     (if b < a then Inl ValueError
      else case next_draw r of (d, r') \<Rightarrow> Inr (a + int d mod (b - a + 1), r'))"

text \<open>\<^verbatim>\<open>random.random()\<close>: a 53-bit integer divided by \<open>2^53\<close>, so a value of \<open>[0, 1)\<close>.\<close>

definition random_unit :: "rng \<Rightarrow> real \<times> rng" where
  "random_unit r =
     (case next_draw r of (d, r') \<Rightarrow>
        (real_of_int (int d mod 9007199254740992) / 9007199254740992, r'))"

text \<open>\<^verbatim>\<open>random.choice(seq)\<close>: IndexError on an empty sequence.\<close>

definition choice :: "'a list \<Rightarrow> rng \<Rightarrow> error + ('a \<times> rng)" where
  "choice seq r =
     (if seq = [] then Inl IndexError
      else case next_draw r of (d, r') \<Rightarrow> Inr (seq ! (d mod length seq), r'))"

text \<open>
  \<^verbatim>\<open>random.sample(population, k)\<close>: \<open>k\<close> elements at distinct positions, in selection
  order; ValueError when \<open>k\<close> is negative or larger than the population. Each selection
  takes one draw and removes the selected position from the pool.
\<close>

fun sample_loop :: "'a list \<Rightarrow> nat \<Rightarrow> rng \<Rightarrow> 'a list \<times> rng" where
  "sample_loop pool 0 r = ([], r)"
| "sample_loop pool (Suc k) r =
     (case next_draw r of (d, r') \<Rightarrow>
        (let j = d mod length pool in
         case sample_loop (take j pool @ drop (Suc j) pool) k r' of
           (rest, r'') \<Rightarrow> (pool ! j # rest, r'')))"

definition sample :: "'a list \<Rightarrow> int \<Rightarrow> rng \<Rightarrow> error + ('a list \<times> rng)" where
  "sample pool k r =
     (if k < 0 \<or> int (length pool) < k then Inl ValueError
      else Inr (sample_loop pool (nat k) r))"

section \<open>Lists and dictionaries\<close>

text \<open>
  A slice bound as Python normalises it against a list of length \<open>n\<close>: a negative bound
  counts from the end, and every bound is clamped into \<open>[0, n]\<close>.
\<close>

definition slice_bound :: "int \<Rightarrow> nat \<Rightarrow> nat" where
  "slice_bound i n = (if i < 0 then nat (max 0 (i + int n)) else min (nat i) n)"

text \<open>\<^verbatim>\<open>xs[i:j]\<close>, \<^verbatim>\<open>xs[:i]\<close> and \<^verbatim>\<open>xs[i:]\<close>.\<close>

definition py_slice :: "'a list \<Rightarrow> int \<Rightarrow> int \<Rightarrow> 'a list" where
  "py_slice xs i j =
     (let a = slice_bound i (length xs); b = slice_bound j (length xs)
      in take (b - a) (drop a xs))"

definition slice_to :: "'a list \<Rightarrow> int \<Rightarrow> 'a list" where
  "slice_to xs i = take (slice_bound i (length xs)) xs"

definition slice_from :: "'a list \<Rightarrow> int \<Rightarrow> 'a list" where
  "slice_from xs i = drop (slice_bound i (length xs)) xs"

text \<open>\<^verbatim>\<open>xs[i:j] = ys\<close>: the slice is replaced by \<open>ys\<close>; an upper bound below the lower one
  counts as the lower one.\<close>

definition slice_assign :: "'a list \<Rightarrow> int \<Rightarrow> int \<Rightarrow> 'a list \<Rightarrow> 'a list" where
  "slice_assign xs i j ys =
     (let a = slice_bound i (length xs); b = slice_bound j (length xs)
      in take a xs @ ys @ drop (max a b) xs)"

text \<open>
  The graph is a dictionary of dictionaries: an association list from a node to the
  association list of its neighbours' weights, read with \<open>map_of\<close>.
\<close>

type_synonym 'n graph = "('n \<times> ('n \<times> real) list) list"

definition keys :: "'n graph \<Rightarrow> 'n list" where
  "keys graph = remdups (map fst graph)"

text \<open>\<^verbatim>\<open>d.get(k, float('inf'))\<close> on a neighbour dictionary.\<close>

definition get_weight :: "('n \<times> real) list \<Rightarrow> 'n \<Rightarrow> dist" where
  "get_weight d k = (case map_of d k of None \<Rightarrow> PInf | Some w \<Rightarrow> Fin w)"

section \<open>Path distance\<close>


text \<open>
  \<^verbatim>\<open>calculate_path_distance\<close>: the loop over \<^verbatim>\<open>range(len(path) - 1)\<close>. The subscript
  \<^verbatim>\<open>graph[path[i]]\<close> raises KeyError when the node is not a key.
\<close>

fun distance_loop :: "'n graph \<Rightarrow> 'n list \<Rightarrow> nat list \<Rightarrow> dist \<Rightarrow> error + dist" where
  "distance_loop graph path [] total_distance = Inr total_distance"
| "distance_loop graph path (i # is) total_distance =
     (case map_of graph (path ! i) of
        None \<Rightarrow> Inl KeyError
      | Some d \<Rightarrow>
          distance_loop graph path is (total_distance + get_weight d (path ! (i + 1))))"

definition calculate_path_distance :: "'n graph \<Rightarrow> 'n list \<Rightarrow> error + dist" where
  "calculate_path_distance graph path = distance_loop graph path [0..<length path - 1] 0"


section \<open>Mutation\<close>

text \<open>
  \<^verbatim>\<open>Mutate\<close> changes the list it is given in place and returns it; the model returns the
  changed list. The caller hands it the list \<^verbatim>\<open>Crossover\<close> has just built, which nothing
  else refers to.
\<close>

definition Mutate ::
  "'n list \<Rightarrow> 'n graph \<Rightarrow> 'n list \<Rightarrow> rng \<Rightarrow> error + ('n list \<times> rng)" where
  "Mutate Child graph all_start_end_points r =
     bindE (choice [''reverse'', ''replace''] r) (\<lambda>(mutation_type, r1).
       if mutation_type = ''reverse'' then
         (if length Child > 3 then
            bindE (randint 1 (int (length Child) - 3) r1) (\<lambda>(start_index, r2).
            bindE (randint start_index (int (length Child) - 2) r2) (\<lambda>(end_index, r3).
              Inr (slice_assign Child start_index (end_index + 1)
                     (rev (py_slice Child start_index (end_index + 1))), r3)))
          else Inr (Child, r1))
       else if mutation_type = ''replace'' then
         (if length Child > 2 then
            (let possible_replacements =
                   filter (\<lambda>a. a \<notin> set Child \<and> a \<notin> set all_start_end_points) (keys graph)
             in if possible_replacements \<noteq> [] then
                  bindE (randint 1 (int (length Child) - 2) r1) (\<lambda>(index_to_replace, r2).
                  bindE (choice possible_replacements r2) (\<lambda>(replacement_attraction, r3).
                    Inr (Child[nat index_to_replace := replacement_attraction], r3)))
                else Inr (Child, r1))
          else Inr (Child, r1))
       else Inr (Child, r1))"

section \<open>Crossover\<close>

text \<open>
  The repair pass of \<^verbatim>\<open>Crossover\<close>: the loop over \<^verbatim>\<open>range(1, len(child) - 1)\<close>.
  \<^verbatim>\<open>missing_attractions.pop()\<close> takes the last element; the loop is entered with a
  non-empty list only and breaks as soon as the list is empty, so \<open>pop\<close> never meets an
  empty list (the first test below is that guard).
\<close>

fun repair :: "'n list \<Rightarrow> 'n list \<Rightarrow> 'n list \<Rightarrow> nat list \<Rightarrow> 'n list" where
  "repair child all_start_end_points missing_attractions [] = child"
| "repair child all_start_end_points missing_attractions (i # is) =
     (if missing_attractions = [] then child
      else if child ! i \<in> set all_start_end_points \<or> count_list child (child ! i) > 1 then
        (let child' = child[i := last missing_attractions];
             missing' = butlast missing_attractions
         in if missing' = [] then child'
            else repair child' all_start_end_points missing' is)
      else repair child all_start_end_points missing_attractions is)"

text \<open>The child before the repair pass: the remainder of parent 2 around the section of
  parent 1.\<close>

definition crossover_construct :: "'n list \<Rightarrow> 'n list \<Rightarrow> int \<Rightarrow> int \<Rightarrow> 'n list" where
  "crossover_construct Parent1 Parent2 Start_Index End_Index =
     (let Start_Index = max Start_Index 1;
          End_Index = min End_Index (int (length Parent1) - 2);
          p1_section = py_slice Parent1 Start_Index (End_Index + 1);
          remainder = filter (\<lambda>attraction. attraction \<notin> set p1_section) Parent2
      in slice_to remainder Start_Index @ p1_section @ slice_from remainder Start_Index)"

text \<open>
  \<^verbatim>\<open>Crossover\<close>. The order in which Python lists a set is not fixed; the missing
  attractions are listed here in the order of parent 1.
\<close>

definition Crossover :: "'n list \<Rightarrow> 'n list \<Rightarrow> int \<Rightarrow> int \<Rightarrow> 'n list \<Rightarrow> 'n list" where
  "Crossover Parent1 Parent2 Start_Index End_Index all_start_end_points =
     (let child = crossover_construct Parent1 Parent2 Start_Index End_Index;
          all_attractions = filter (\<lambda>a. a \<notin> set all_start_end_points) (remdups Parent1);
          missing_attractions = filter (\<lambda>a. a \<notin> set child) all_attractions
      in if missing_attractions \<noteq> []
         then repair child all_start_end_points missing_attractions [1..<length child - 1]
         else child)"

section \<open>Tournament selection\<close>

text \<open>\<^verbatim>\<open>xs[i]\<close> for an index that is not negative.\<close>

definition list_get :: "'a list \<Rightarrow> nat \<Rightarrow> error + 'a" where
  "list_get xs i = (if i < length xs then Inr (xs ! i) else Inl IndexError)"

text \<open>\<^verbatim>\<open>min(seq, key=...)\<close>: the first element of least key; ValueError on an empty
  sequence.\<close>

definition min_by :: "('a \<Rightarrow> dist) \<Rightarrow> 'a list \<Rightarrow> error + 'a" where
  "min_by key seq =
     (case seq of
        [] \<Rightarrow> Inl ValueError
      | x # xs \<Rightarrow> Inr (foldl (\<lambda>best y. if key y < key best then y else best) x xs))"

fun mating_loop ::
  "nat \<Rightarrow> 'n list list \<Rightarrow> (nat \<times> dist) list \<Rightarrow> int \<Rightarrow> rng \<Rightarrow> error + ('n list list \<times> rng)" where
  "mating_loop 0 population RankList tournament_size r = Inr ([], r)"
| "mating_loop (Suc k) population RankList tournament_size r =
     bindE (sample RankList tournament_size r) (\<lambda>(tournament, r1).
     bindE (min_by snd tournament) (\<lambda>winner.
     bindE (list_get population (fst winner)) (\<lambda>path.
     bindE (mating_loop k population RankList tournament_size r1) (\<lambda>(matingPool, r2).
       Inr (path # matingPool, r2)))))"

definition CreateMatingPool ::
  "'n list list \<Rightarrow> (nat \<times> dist) list \<Rightarrow> int \<Rightarrow> rng \<Rightarrow> error + ('n list list \<times> rng)" where
  "CreateMatingPool population RankList tournament_size r =
     mating_loop (length population) population RankList tournament_size r"

section \<open>The initial population\<close>

fun initial_loop ::
  "nat \<Rightarrow> 'n list \<Rightarrow> 'n \<Rightarrow> 'n \<Rightarrow> int \<Rightarrow> 'n list list \<Rightarrow> rng \<Rightarrow> error + ('n list list \<times> rng)" where
  "initial_loop 0 attractions start_attraction end_attraction final_path_size
     initial_population r = Inr (initial_population, r)"
| "initial_loop (Suc k) attractions start_attraction end_attraction final_path_size
     initial_population r =
     (let remaining_attractions =
            filter (\<lambda>a. a \<noteq> start_attraction \<and> a \<noteq> end_attraction) (remdups attractions)
      in bindE (sample remaining_attractions
                  (min (int (length remaining_attractions)) (final_path_size - 2)) r)
           (\<lambda>(drawn, r1).
              (let path = [start_attraction] @ drawn @ [end_attraction]
               in initial_loop k attractions start_attraction end_attraction final_path_size
                    (if path \<in> set initial_population then initial_population
                     else initial_population @ [path]) r1)))"

definition CreateInitialPopulation ::
  "int \<Rightarrow> 'n graph \<Rightarrow> 'n \<Rightarrow> 'n \<Rightarrow> int \<Rightarrow> 'n list \<Rightarrow> rng \<Rightarrow> error + ('n list list \<times> rng)" where
  "CreateInitialPopulation size' graph start_attraction end_attraction final_path_size
     all_start_end_points r =
     initial_loop (nat size')
       (filter (\<lambda>attraction. attraction \<notin> set all_start_end_points) (keys graph))
       start_attraction end_attraction final_path_size [] r"

section \<open>The generational loop\<close>

text \<open>The list comprehension that builds \<^verbatim>\<open>RankList\<close> from \<^verbatim>\<open>enumerate(population)\<close>.\<close>

fun rank_loop :: "'n graph \<Rightarrow> (nat \<times> 'n list) list \<Rightarrow> error + (nat \<times> dist) list" where
  "rank_loop graph [] = Inr []"
| "rank_loop graph ((i, path) # rest) =
     bindE (calculate_path_distance graph path) (\<lambda>fitness.
     bindE (rank_loop graph rest) (\<lambda>ranked. Inr ((i, fitness) # ranked)))"

text \<open>The breeding loop \<^verbatim>\<open>for i in range(size//2)\<close>.\<close>

fun breed_loop ::
  "nat \<Rightarrow> 'n list list \<Rightarrow> 'n graph \<Rightarrow> 'n list \<Rightarrow> real \<Rightarrow> rng \<Rightarrow> error + ('n list list \<times> rng)" where
  "breed_loop 0 matingPool graph all_start_end_points mutation_rate r = Inr ([], r)"
| "breed_loop (Suc k) matingPool graph all_start_end_points mutation_rate r =
     bindE (randint 0 (int (length matingPool) - 1) r) (\<lambda>(i1, r1).
     bindE (randint 0 (int (length matingPool) - 1) r1) (\<lambda>(i2, r2).
       (let Parent1 = matingPool ! nat i1; Parent2 = matingPool ! nat i2 in
     bindE (randint 1 (int (length Parent1) - 2) r2) (\<lambda>(start_index, r3).
     bindE (randint start_index (int (length Parent1) - 2) r3) (\<lambda>(end_index, r4).
       (let child = Crossover Parent1 Parent2 start_index end_index all_start_end_points in
        case random_unit r4 of (u, r5) \<Rightarrow>
     bindE (if u < mutation_rate then Mutate child graph all_start_end_points r5
            else Inr (child, r5)) (\<lambda>(child', r6).
     bindE (breed_loop k matingPool graph all_start_end_points mutation_rate r6)
       (\<lambda>(newPopulation, r7). Inr (child' # newPopulation, r7)))))))))"

text \<open>The state the loop of \<^verbatim>\<open>run_genetic_algorithm\<close> carries from one generation to the
  next, with the random source.\<close>

record 'n ga_state =
  population :: "'n list list"
  bestPath :: "'n list"
  bestFitness :: dist
  rng_state :: rng

text \<open>One pass through the body of \<^verbatim>\<open>for generation in range(generations)\<close>. The
  tournament size is the default of \<^verbatim>\<open>CreateMatingPool\<close>, 3.\<close>

definition generation_step ::
  "'n graph \<Rightarrow> real \<Rightarrow> real \<Rightarrow> real \<Rightarrow> 'n list \<Rightarrow> nat \<Rightarrow> 'n ga_state \<Rightarrow> error + 'n ga_state" where
  "generation_step graph initial_mutation_rate minimum_mutation_rate decay_rate
     all_start_end_points generation st =
     bindE (rank_loop graph (enumerate 0 (population st))) (\<lambda>ranked.
       (let RankList = sort_key snd ranked;
            mutation_rate =
              max (initial_mutation_rate - real generation * decay_rate) minimum_mutation_rate
        in
     bindE (list_get RankList 0) (\<lambda>top.
       (let currentBestFitness = snd top;
            improved = currentBestFitness < bestFitness st;
            bestFitness' = (if improved then currentBestFitness else bestFitness st);
            bestPath' = (if improved then population st ! fst top else bestPath st)
        in
     bindE (CreateMatingPool (population st) RankList 3 (rng_state st)) (\<lambda>(matingPool, r1).
       (let size' = length (population st) in
     bindE (breed_loop (size' div 2) matingPool graph all_start_end_points mutation_rate r1)
       (\<lambda>(newPopulation, r2).
          Inr \<lparr>population = newPopulation @ take (size' div 2) (population st),
               bestPath = bestPath', bestFitness = bestFitness', rng_state = r2\<rparr>)))))))"

fun generations_loop ::
  "'n graph \<Rightarrow> real \<Rightarrow> real \<Rightarrow> real \<Rightarrow> 'n list \<Rightarrow> nat list \<Rightarrow> 'n ga_state \<Rightarrow> error + 'n ga_state" where
  "generations_loop graph imr mmr decay_rate all_start_end_points [] st = Inr st"
| "generations_loop graph imr mmr decay_rate all_start_end_points (generation # rest) st =
     bindE (generation_step graph imr mmr decay_rate all_start_end_points generation st)
       (generations_loop graph imr mmr decay_rate all_start_end_points rest)"

text \<open>The state with which the loop starts.\<close>

definition initial_state :: "'n list list \<Rightarrow> rng \<Rightarrow> 'n ga_state" where
  "initial_state initial_population r =
     \<lparr>population = initial_population, bestPath = [], bestFitness = PInf, rng_state = r\<rparr>"

text \<open>\<^verbatim>\<open>run_genetic_algorithm\<close> (without the \<^verbatim>\<open>debug\<close> printing). The division that
  computes \<^verbatim>\<open>decay_rate\<close> raises ZeroDivisionError when \<^verbatim>\<open>generations\<close> is 0;
  \<^verbatim>\<open>range\<close> of a negative number is empty.\<close>

definition run_genetic_algorithm ::
  "'n graph \<Rightarrow> int \<Rightarrow> 'n \<Rightarrow> 'n \<Rightarrow> int \<Rightarrow> int \<Rightarrow> real \<Rightarrow> real \<Rightarrow> 'n list \<Rightarrow> rng
     \<Rightarrow> error + ('n list \<times> dist)" where
  "run_genetic_algorithm graph initial_pop_size start_attraction end_attraction
     final_path_size generations initial_mutation_rate minimum_mutation_rate
     all_start_end_points r =
     (if generations = 0 then Inl ZeroDivisionError
      else
        (let decay_rate = (initial_mutation_rate - minimum_mutation_rate) / real_of_int generations
         in
      bindE (CreateInitialPopulation initial_pop_size graph start_attraction end_attraction
               final_path_size all_start_end_points r) (\<lambda>(initial_population, r1).
      bindE (generations_loop graph initial_mutation_rate minimum_mutation_rate decay_rate
               all_start_end_points [0..<nat generations] (initial_state initial_population r1))
        (\<lambda>st. Inr (bestPath st, bestFitness st)))))"

text \<open>
  The states of a run, for stating what the loop does over time: the state before each
  generation and the final one, as long as no generation raises.
\<close>

fun generations_trace ::
  "'n graph \<Rightarrow> real \<Rightarrow> real \<Rightarrow> real \<Rightarrow> 'n list \<Rightarrow> nat list \<Rightarrow> 'n ga_state
     \<Rightarrow> error + 'n ga_state list" where
  "generations_trace graph imr mmr decay_rate all_start_end_points [] st = Inr [st]"
| "generations_trace graph imr mmr decay_rate all_start_end_points (generation # rest) st =
     bindE (generation_step graph imr mmr decay_rate all_start_end_points generation st)
       (\<lambda>st'. bindE (generations_trace graph imr mmr decay_rate all_start_end_points rest st')
          (\<lambda>states. Inr (st # states)))"

text \<open>The states of a whole run: \<open>run_genetic_algorithm\<close> with the trace in place of
  the loop. The run returns the best path and fitness of the last state.\<close>

definition run_trace ::
  "'n graph \<Rightarrow> int \<Rightarrow> 'n \<Rightarrow> 'n \<Rightarrow> int \<Rightarrow> int \<Rightarrow> real \<Rightarrow> real \<Rightarrow> 'n list \<Rightarrow> rng
     \<Rightarrow> error + 'n ga_state list" where
  "run_trace graph initial_pop_size start_attraction end_attraction
     final_path_size generations initial_mutation_rate minimum_mutation_rate
     all_start_end_points r =
     (if generations = 0 then Inl ZeroDivisionError
      else
        (let decay_rate = (initial_mutation_rate - minimum_mutation_rate) / real_of_int generations
         in
      bindE (CreateInitialPopulation initial_pop_size graph start_attraction end_attraction
               final_path_size all_start_end_points r) (\<lambda>(initial_population, r1).
        generations_trace graph initial_mutation_rate minimum_mutation_rate decay_rate
          all_start_end_points [0..<nat generations] (initial_state initial_population r1))))"

section \<open>Example inputs\<close>

text \<open>
  Three small graphs over the start \<open>A\<close> and the end \<open>E\<close>. In \<open>graph_four\<close> the
  paths \<open>A, x, E\<close> cost 4, 6, 8 and 2 for \<open>x\<close> = b, c, d, e. In \<open>graph_no_exit\<close>
  every node is a key but no edge leaves the start. In \<open>graph_no_end_key\<close> the end is
  a neighbour but not a key.
\<close>

definition graph_four :: "string graph" where
  "graph_four =
     [(''A'', [(''b'', 2), (''c'', 3), (''d'', 4), (''e'', 1)]), (''b'', [(''E'', 2)]),
      (''c'', [(''E'', 3)]), (''d'', [(''E'', 4)]), (''e'', [(''E'', 1)]), (''E'', [])]"

definition graph_no_exit :: "string graph" where
  "graph_no_exit =
     [(''A'', []), (''b'', [(''E'', 1)]), (''c'', [(''E'', 1)]), (''d'', [(''E'', 1)]),
      (''E'', [])]"

definition graph_no_end_key :: "string graph" where
  "graph_no_end_key =
     [(''A'', [(''b'', 2), (''c'', 3), (''d'', 4)]), (''b'', [(''E'', 2)]),
      (''c'', [(''E'', 3)]), (''d'', [(''E'', 4)])]"

section \<open>Vocabulary of the statements\<close>

text \<open>The interior of a path: what lies between its first and its last node.\<close>

definition interior :: "'a list \<Rightarrow> 'a list" where
  "interior xs = butlast (tl xs)"

text \<open>What a candidate path of the initial population has to look like.\<close>

definition valid_initial_path :: "'n graph \<Rightarrow> 'n \<Rightarrow> 'n \<Rightarrow> int \<Rightarrow> 'n list \<Rightarrow> 'n list \<Rightarrow> bool" where
  "valid_initial_path graph start_attraction end_attraction final_path_size
     all_start_end_points path =
     (length path =
        min (nat final_path_size)
          (card (set (keys graph) - set all_start_end_points
                   - {start_attraction, end_attraction}) + 2) \<and>
      hd path = start_attraction \<and> last path = end_attraction \<and>
      set (interior path) \<subseteq>
        set (keys graph) - set all_start_end_points - {start_attraction, end_attraction} \<and>
      distinct (interior path))"


section \<open>Basic facts\<close>

lemma dist_less_simps [simp]:
  "(Fin a < Fin b) = (a < b)"
  "Fin a < PInf"
  "\<not> PInf < x"
  by (cases x; auto simp: less_dist_def)+

lemma dist_add_PInf [simp]: "x + PInf = PInf"
  by (cases x) simp_all

lemma dist_less_PInf: "(x < PInf) = (x \<noteq> PInf)"
  by (cases x) simp_all

lemma dist_PInf_add [simp]: "PInf + x = PInf"
  by simp


lemma bindE_Inr_iff: "(bindE m f = Inr y) = (\<exists>x. m = Inr x \<and> f x = Inr y)"
  by (cases m) (simp_all add: bindE_def)

lemma bindE_simps [simp]: "bindE (Inl e) f = Inl e" "bindE (Inr x) f = f x"
  by (simp_all add: bindE_def)

section \<open>Path distance: the loop computes the sum\<close>






section \<open>Mutation keeps the length and the two ends\<close>

lemma randint_Inr:
  "randint a b r = Inr (x, r') \<Longrightarrow> a \<le> x \<and> x \<le> b"
  by (auto simp: randint_def split: if_splits prod.splits)
     (smt (verit) pos_mod_bound pos_mod_sign)+

lemma randint_total:
  "a \<le> b \<Longrightarrow> \<exists>x r'. randint a b r = Inr (x, r')"
  by (simp add: randint_def split: prod.splits)

lemma choice_total:
  "seq \<noteq> [] \<Longrightarrow> \<exists>x r'. choice seq r = Inr (x, r') \<and> x \<in> set seq"
  by (simp add: choice_def split: prod.splits)

lemma reverse_slice_frame:
  assumes "1 \<le> s" "s \<le> e" "e \<le> int (length xs) - 2"
  defines "ys \<equiv> slice_assign xs s (e + 1) (rev (py_slice xs s (e + 1)))"
  shows "length ys = length xs \<and> hd ys = hd xs \<and> last ys = last xs"
proof -
  have a: "slice_bound s (length xs) = nat s"
    using assms by (simp add: slice_bound_def)
  have b: "slice_bound (e + 1) (length xs) = nat (e + 1)"
    using assms by (simp add: slice_bound_def)
  have ys: "ys = take (nat s) xs @ rev (take (nat (e + 1) - nat s) (drop (nat s) xs)) @ drop (nat (e + 1)) xs"
    using assms(1,2) by (simp add: ys_def slice_assign_def py_slice_def a b max_def Let_def)
  have ne: "take (nat s) xs \<noteq> []" "drop (nat (e + 1)) xs \<noteq> []"
    using assms by auto
  have "length ys = length xs"
    using assms(1-3) unfolding ys by (simp; linarith)
  moreover have "hd ys = hd xs"
    unfolding ys using ne(1) assms(1) by (simp add: hd_append)
  moreover have "last ys = last xs"
    unfolding ys using ne(2) by (simp add: last_drop)
  ultimately show ?thesis by simp
qed

lemma update_frame:
  assumes "1 \<le> i" "i \<le> int (length xs) - 2"
  shows "length (xs[nat i := v]) = length xs \<and> hd (xs[nat i := v]) = hd xs \<and>
         last (xs[nat i := v]) = last xs"
proof -
  have "xs \<noteq> []" using assms by auto
  moreover have "nat i \<noteq> 0" "nat i \<noteq> length xs - 1" using assms by auto
  ultimately show ?thesis
    by (simp add: hd_conv_nth last_conv_nth)
qed

text \<open>
  C9. For every child path, graph and anchor list, and for every outcome of the random
  choices (every tape), \<open>Mutate\<close> returns without raising, and the path it returns has
  the length of the path it was given, the same node at position 0 and the same node at
  the last position.
\<close>

theorem Mutate_frame:
  "\<exists>child r'. Mutate Child graph all_start_end_points r = Inr (child, r') \<and>
     length child = length Child \<and> hd child = hd Child \<and> last child = last Child"
proof -
  obtain mutation_type r1 where c: "choice [''reverse'', ''replace''] r = Inr (mutation_type, r1)"
    using choice_total [of "[''reverse'', ''replace'']" r] by auto
  show ?thesis
  proof (cases "mutation_type = ''reverse''")
    case rev: True
    show ?thesis
    proof (cases "length Child > 3")
      case True
      then obtain s r2 where s: "randint 1 (int (length Child) - 3) r1 = Inr (s, r2)"
        using randint_total [of 1 "int (length Child) - 3" r1] by auto
      then have sb: "1 \<le> s" "s \<le> int (length Child) - 3"
        using randint_Inr by blast+
      then obtain e r3 where e: "randint s (int (length Child) - 2) r2 = Inr (e, r3)"
        using randint_total [of s "int (length Child) - 2" r2] by auto
      then have eb: "s \<le> e" "e \<le> int (length Child) - 2"
        using randint_Inr by blast+
      have "Mutate Child graph all_start_end_points r =
          Inr (slice_assign Child s (e + 1) (rev (py_slice Child s (e + 1))), r3)"
        using c rev True s e by (simp add: Mutate_def)
      with reverse_slice_frame [OF sb(1) eb] show ?thesis by simp
    next
      case False
      with c rev show ?thesis by (simp add: Mutate_def)
    qed
  next
    case norev: False
    show ?thesis
    proof (cases "mutation_type = ''replace'' \<and> length Child > 2 \<and>
        filter (\<lambda>a. a \<notin> set Child \<and> a \<notin> set all_start_end_points) (keys graph) \<noteq> []")
      case True
      let ?poss = "filter (\<lambda>a. a \<notin> set Child \<and> a \<notin> set all_start_end_points) (keys graph)"
      from True obtain i r2 where i: "randint 1 (int (length Child) - 2) r1 = Inr (i, r2)"
        using randint_total [of 1 "int (length Child) - 2" r1] by auto
      then have ib: "1 \<le> i" "i \<le> int (length Child) - 2"
        using randint_Inr by blast+
      from True obtain v r3 where v: "choice ?poss r2 = Inr (v, r3)"
        using choice_total [of ?poss r2] by auto
      have "Mutate Child graph all_start_end_points r = Inr (Child[nat i := v], r3)"
        using c norev True i v by (simp add: Mutate_def)
      with update_frame [OF ib] show ?thesis by simp
    next
      case False
      with c norev show ?thesis by (auto simp: Mutate_def Let_def)
    qed
  qed
qed

theorem Mutate_frame_witness:
  "\<exists>child r'. Mutate [''A'', ''b'', ''c'', ''d'', ''E'']
       [(''A'', []), (''b'', []), (''c'', []), (''d'', []), (''x'', []), (''E'', [])]
       [''A'', ''E''] [1, 2, 0] = Inr (child, r') \<and>
     length child = 5 \<and> hd child = ''A'' \<and> last child = ''E''"
  using Mutate_frame [of "[''A'', ''b'', ''c'', ''d'', ''E'']"
       "[(''A'', []), (''b'', []), (''c'', []), (''d'', []), (''x'', []), (''E'', [])]"
       "[''A'', ''E'']" "[1, 2, 0]"]
  by (simp add: eval_nat_numeral)

section \<open>Crossover keeps the path a valid candidate\<close>

lemma slice_bound_le: "slice_bound i n \<le> n"
  by (auto simp: slice_bound_def)

lemma py_slice_set: "set (py_slice xs i j) \<subseteq> set xs"
  by (auto simp: py_slice_def Let_def dest: in_set_takeD in_set_dropD)

lemma py_slice_distinct: "distinct xs \<Longrightarrow> distinct (py_slice xs i j)"
  by (simp add: py_slice_def Let_def)

lemma slice_to_from: "slice_to xs i @ slice_from xs i = xs"
  by (simp add: slice_to_def slice_from_def)

lemma section_interior:
  assumes "1 \<le> S" "E \<le> int (length xs) - 2"
  shows "\<exists>k m. py_slice xs S (E + 1) = take m (drop k (interior xs))"
proof (cases "length xs < 2")
  case True
  then have "slice_bound (E + 1) (length xs) - slice_bound S (length xs) = 0"
    using assms by (auto simp: slice_bound_def)
  then have "py_slice xs S (E + 1) = take 0 (drop 0 (interior xs))"
    by (simp add: py_slice_def Let_def)
  then show ?thesis by blast
next
  case False
  define a where "a = slice_bound S (length xs)"
  define b where "b = slice_bound (E + 1) (length xs)"
  have a: "1 \<le> a" using assms False by (auto simp: a_def slice_bound_def)
  have b: "b \<le> length xs - 1" using assms False by (auto simp: b_def slice_bound_def)
  have "drop a xs = drop (a - 1) (tl xs)"
    using a by (cases xs; cases a) simp_all
  then have "py_slice xs S (E + 1) = take (b - a) (drop (a - 1) (tl xs))"
    by (simp add: py_slice_def Let_def a_def b_def)
  also have "\<dots> = take (b - a) (drop (a - 1) (interior xs))"
    using a b by (simp add: interior_def butlast_conv_take drop_take min_def)
  finally show ?thesis by blast
qed


lemma filter_removed_length:
  assumes "distinct xs"
  shows "length xs \<le> length (filter (\<lambda>x. x \<notin> set ys) xs) + length ys"
proof -
  have "length (filter (\<lambda>x. x \<in> set ys) xs) = card {x \<in> set xs. x \<in> set ys}"
    using assms by (simp add: distinct_length_filter Int_def conj_commute)
  also have "\<dots> \<le> card (set ys)"
    by (rule card_mono) auto
  also have "\<dots> \<le> length ys"
    by (rule card_length)
  finally have "length (filter (\<lambda>x. x \<in> set ys) xs) \<le> length ys" .
  moreover have "length xs =
      length (filter (\<lambda>x. x \<in> set ys) xs) + length (filter (\<lambda>x. x \<notin> set ys) xs)"
    using sum_length_filter_compl [of "\<lambda>x. x \<in> set ys" xs] by simp
  ultimately show ?thesis by simp
qed

lemma path_decompose:
  "2 \<le> length xs \<Longrightarrow> xs = hd xs # interior xs @ [last xs]"
  unfolding interior_def
  by (cases xs) (auto simp: Suc_le_eq)

text \<open>The child before repair, for parents whose interiors are duplicate-free and hold
  neither end of parent 2.\<close>

lemma construct_shape:
  assumes len: "length Parent1 = length Parent2" "2 \<le> length Parent1"
    and dist: "distinct (interior Parent1)" "distinct (interior Parent2)"
    and ends: "hd Parent2 \<notin> set (interior Parent1)" "last Parent2 \<notin> set (interior Parent1)"
  shows "\<exists>M. crossover_construct Parent1 Parent2 s e = hd Parent2 # M @ [last Parent2] \<and>
      distinct M \<and> set M \<subseteq> set (interior Parent1) \<union> set (interior Parent2)"
proof -
  define n where "n = length Parent1"
  define S where "S = max s 1"
  define E where "E = min e (int n - 2)"
  define sec where "sec = py_slice Parent1 S (E + 1)"
  define F where "F = filter (\<lambda>x. x \<notin> set sec) (interior Parent2)"
  define rem where "rem = filter (\<lambda>x. x \<notin> set sec) Parent2"
  have child: "crossover_construct Parent1 Parent2 s e = slice_to rem S @ sec @ slice_from rem S"
    by (simp add: crossover_construct_def Let_def S_def E_def n_def sec_def rem_def)
  obtain k m where km: "sec = take m (drop k (interior Parent1))"
    using section_interior [of S E Parent1] unfolding sec_def S_def E_def n_def by auto
  have sec_sub: "set sec \<subseteq> set (interior Parent1)"
    unfolding km by (meson in_set_dropD in_set_takeD subsetI)
  have sec_dist: "distinct sec"
    unfolding km using dist(1) by simp
  have P2: "Parent2 = hd Parent2 # interior Parent2 @ [last Parent2]"
    using len by (intro path_decompose) simp
  have rem: "rem = hd Parent2 # F @ [last Parent2]"
    unfolding rem_def F_def using ends sec_sub by (subst P2) auto
  have F_dist: "distinct F" unfolding F_def using dist(2) by simp
  have F_sec: "set F \<inter> set sec = {}" unfolding F_def by auto
  show ?thesis
  proof (cases "sec = []")
    case True
    then have "crossover_construct Parent1 Parent2 s e = hd Parent2 # F @ [last Parent2]"
      using child rem by (simp add: slice_to_from)
    moreover have "set F \<subseteq> set (interior Parent2)" unfolding F_def by auto
    ultimately show ?thesis using F_dist by blast
  next
    case False
    define a where "a = slice_bound S n"
    define b where "b = slice_bound (E + 1) n"
    have seclen: "length sec = b - a"
      using slice_bound_le [of "E + 1" n]
      by (simp add: sec_def py_slice_def Let_def a_def b_def n_def)
    have ab: "a < b"
    proof (rule ccontr)
      assume "\<not> a < b"
      then have "length sec = 0" using seclen by simp
      then show False using False by simp
    qed
    have b: "b \<le> n - 1"
      using len by (auto simp: b_def E_def slice_bound_def n_def)
    have a1: "1 \<le> a" using len by (auto simp: a_def S_def slice_bound_def n_def)
    have aS: "a = nat S" using ab b by (auto simp: a_def S_def slice_bound_def)
    have "length (interior Parent2) \<le> length F + length sec"
      unfolding F_def by (rule filter_removed_length [OF dist(2)])
    moreover have "length (interior Parent2) = n - 2"
      using len by (simp add: interior_def n_def)
    ultimately have aF: "a - 1 \<le> length F"
      using seclen ab b by simp
    have kk: "slice_bound S (length rem) = a"
      using aF a1 aS by (auto simp: slice_bound_def rem S_def)
    obtain a' where a': "a = Suc a'" using a1 by (cases a) auto
    have "slice_to rem S = take a rem" "slice_from rem S = drop a rem"
      by (simp_all add: slice_to_def slice_from_def kk)
    moreover have "take a rem = hd Parent2 # take a' F"
      using aF unfolding rem a' by simp
    moreover have "drop a rem = drop a' F @ [last Parent2]"
      using aF unfolding rem a' by simp
    ultimately have "crossover_construct Parent1 Parent2 s e =
        hd Parent2 # (take a' F @ sec @ drop a' F) @ [last Parent2]"
      using child by simp
    moreover have "distinct (take a' F @ sec @ drop a' F)"
    proof -
      have "distinct (take a' F @ drop a' F)" using F_dist by simp
      then have "distinct (take a' F)" "distinct (drop a' F)"
        "set (take a' F) \<inter> set (drop a' F) = {}"
        unfolding distinct_append by simp_all
      moreover have "set (take a' F) \<subseteq> set F" "set (drop a' F) \<subseteq> set F"
        by (simp_all add: set_take_subset set_drop_subset)
      ultimately show ?thesis using sec_dist F_sec by auto
    qed
    moreover have "set (take a' F @ sec @ drop a' F) \<subseteq> set (interior Parent1) \<union> set (interior Parent2)"
      using sec_sub by (auto simp: F_def dest!: in_set_takeD in_set_dropD)
    ultimately show ?thesis by blast
  qed
qed


lemma distinct_count_le: "distinct xs \<Longrightarrow> count_list xs x \<le> 1"
  by (induction xs) auto

lemma repair_noop:
  "\<forall>i \<in> set idxs. child ! i \<notin> set anchors \<and> count_list child (child ! i) \<le> 1 \<Longrightarrow>
   repair child anchors missing idxs = child"
  by (induction idxs arbitrary: missing) auto

lemma repair_frame:
  "\<forall>i \<in> set idxs. 1 \<le> i \<and> i < length child - 1 \<Longrightarrow>
   length (repair child anchors missing idxs) = length child \<and>
   hd (repair child anchors missing idxs) = hd child \<and>
   last (repair child anchors missing idxs) = last child"
proof (induction idxs arbitrary: child missing)
  case Nil
  then show ?case by simp
next
  case (Cons i idxs)
  have i: "1 \<le> i" "i < length child - 1" using Cons.prems by auto
  then have ne: "child \<noteq> []" by auto
  have upd: "length (child[i := v]) = length child \<and> hd (child[i := v]) = hd child \<and>
      last (child[i := v]) = last child" for v
    using i ne by (simp add: hd_conv_nth last_conv_nth)
  have rest: "\<forall>j \<in> set idxs. 1 \<le> j \<and> j < length (child[i := v]) - 1" for v
    using Cons.prems by simp
  have rest': "\<forall>j \<in> set idxs. 1 \<le> j \<and> j < length child - 1"
    using Cons.prems by simp
  show ?case
    using Cons.IH [OF rest] Cons.IH [OF rest'] upd
    by (simp add: Let_def)
qed

lemma interior_Cons_snoc [simp]: "interior (x # M @ [y]) = M"
  by (simp add: interior_def)

text \<open>
  C3. For two parents of equal length (at least 2) with the same first and the same last
  node, both of them anchors, whose interiors hold no node twice and no anchor, and for
  every pair of crossover indices (\<open>Crossover\<close> clamps them itself), the child has the
  two anchors at position 0 and at the last position and nowhere else, holds every
  non-anchor node at most once, and its first and last positions are those of parent 2
  as the construction step leaves them; the repair pass, on any child, leaves the first
  and the last position as they are.
\<close>

theorem Crossover_child_valid:
  assumes len: "length Parent1 = length Parent2" "2 \<le> length Parent1"
    and same_ends: "hd Parent1 = hd Parent2" "last Parent1 = last Parent2"
    and ends_anchors: "hd Parent1 \<in> set anchors" "last Parent1 \<in> set anchors"
    and dist: "distinct (interior Parent1)" "distinct (interior Parent2)"
    and free: "set (interior Parent1) \<inter> set anchors = {}"
      "set (interior Parent2) \<inter> set anchors = {}"
  shows "(let child = Crossover Parent1 Parent2 s e anchors in
      2 \<le> length child \<and> hd child = hd Parent1 \<and> last child = last Parent1 \<and>
      distinct (interior child) \<and> set (interior child) \<inter> set anchors = {} \<and>
      (\<forall>x. x \<notin> set anchors \<longrightarrow> count_list child x \<le> 1) \<and>
      hd (crossover_construct Parent1 Parent2 s e) = hd Parent2 \<and>
      last (crossover_construct Parent1 Parent2 s e) = last Parent2) \<and>
    (\<forall>c m. hd (repair c anchors m [1..<length c - 1]) = hd c \<and>
           last (repair c anchors m [1..<length c - 1]) = last c)"
proof -
  have ends: "hd Parent2 \<notin> set (interior Parent1)" "last Parent2 \<notin> set (interior Parent1)"
    using same_ends ends_anchors free(1) by auto
  obtain M where M: "crossover_construct Parent1 Parent2 s e = hd Parent2 # M @ [last Parent2]"
      "distinct M" "set M \<subseteq> set (interior Parent1) \<union> set (interior Parent2)"
    using construct_shape [OF len dist ends] by blast
  let ?c = "hd Parent2 # M @ [last Parent2]"
  have M_free: "set M \<inter> set anchors = {}" using M(3) free by auto
  have st: "hd Parent2 \<in> set anchors" "last Parent2 \<in> set anchors"
    using same_ends ends_anchors by auto
  have cnt: "count_list ?c x \<le> 1" if "x \<notin> set anchors" for x
    using that st distinct_count_le [OF M(2), of x] by auto
  have noop: "repair ?c anchors missing [1..<length ?c - 1] = ?c" for missing
  proof (rule repair_noop, rule ballI)
    fix i assume "i \<in> set [1..<length ?c - 1]"
    then have i: "1 \<le> i" "i - 1 < length M" by auto
    then have "?c ! i = M ! (i - 1)"
      by (cases i) (simp_all add: nth_append)
    moreover have "M ! (i - 1) \<in> set M" using i by simp
    ultimately have "?c ! i \<notin> set anchors" using M_free by auto
    then show "?c ! i \<notin> set anchors \<and> count_list ?c (?c ! i) \<le> 1"
      using cnt by blast
  qed
  have child: "Crossover Parent1 Parent2 s e anchors = ?c"
    using noop by (simp add: Crossover_def Let_def M(1))
  have frame: "hd (repair c anchors m [1..<length c - 1]) = hd c \<and>
      last (repair c anchors m [1..<length c - 1]) = last c" for c m
    using repair_frame [of "[1..<length c - 1]" c anchors m] by simp
  show ?thesis
    unfolding Let_def child M(1)
    using M(2) M_free cnt same_ends frame by simp
qed

theorem Crossover_child_valid_witness:
  "length [''A'', ''b'', ''c'', ''d'', ''E''] = length [''A'', ''d'', ''e'', ''c'', ''E''] \<and>
   2 \<le> length [''A'', ''b'', ''c'', ''d'', ''E''] \<and>
   distinct (interior [''A'', ''b'', ''c'', ''d'', ''E'']) \<and>
   distinct (interior [''A'', ''d'', ''e'', ''c'', ''E'']) \<and>
   set (interior [''A'', ''b'', ''c'', ''d'', ''E'']) \<inter> set [''A'', ''E''] = {} \<and>
   set (interior [''A'', ''d'', ''e'', ''c'', ''E'']) \<inter> set [''A'', ''E''] = {} \<and>
   hd (Crossover [''A'', ''b'', ''c'', ''d'', ''E''] [''A'', ''d'', ''e'', ''c'', ''E''] 2 3
         [''A'', ''E'']) = ''A'' \<and>
   last (Crossover [''A'', ''b'', ''c'', ''d'', ''E''] [''A'', ''d'', ''e'', ''c'', ''E''] 2 3
         [''A'', ''E'']) = ''E'' \<and>
   distinct (interior (Crossover [''A'', ''b'', ''c'', ''d'', ''E'']
         [''A'', ''d'', ''e'', ''c'', ''E''] 2 3 [''A'', ''E''])) \<and>
   count_list (Crossover [''A'', ''b'', ''c'', ''d'', ''E'']
         [''A'', ''d'', ''e'', ''c'', ''E''] 2 3 [''A'', ''E'']) ''c'' \<le> 1"
proof -
  let ?p1 = "[''A'', ''b'', ''c'', ''d'', ''E'']"
  let ?p2 = "[''A'', ''d'', ''e'', ''c'', ''E'']"
  let ?an = "[''A'', ''E'']"
  have h: "length ?p1 = length ?p2" "2 \<le> length ?p1" "hd ?p1 = hd ?p2" "last ?p1 = last ?p2"
    "hd ?p1 \<in> set ?an" "last ?p1 \<in> set ?an"
    "distinct (interior ?p1)" "distinct (interior ?p2)"
    "set (interior ?p1) \<inter> set ?an = {}" "set (interior ?p2) \<inter> set ?an = {}"
    by (simp_all add: interior_def)
  have c: "''c'' \<notin> set ?an" by simp
  note child = Crossover_child_valid [OF h, of 2 3, unfolded Let_def, THEN conjunct1]
  have "hd (Crossover ?p1 ?p2 2 3 ?an) = hd ?p1"
    by (rule child [THEN conjunct2, THEN conjunct1])
  also have "hd ?p1 = ''A''" by simp
  finally have c1: "hd (Crossover ?p1 ?p2 2 3 ?an) = ''A''" .
  have "last (Crossover ?p1 ?p2 2 3 ?an) = last ?p1"
    by (rule child [THEN conjunct2, THEN conjunct2, THEN conjunct1])
  also have "last ?p1 = ''E''" by simp
  finally have c2: "last (Crossover ?p1 ?p2 2 3 ?an) = ''E''" .
  have c3: "distinct (interior (Crossover ?p1 ?p2 2 3 ?an))"
    by (rule child [THEN conjunct2, THEN conjunct2, THEN conjunct2, THEN conjunct1])
  have c4: "count_list (Crossover ?p1 ?p2 2 3 ?an) ''c'' \<le> 1"
    by (rule child [THEN conjunct2, THEN conjunct2, THEN conjunct2, THEN conjunct2,
          THEN conjunct2, THEN conjunct1, rule_format, OF c])
  from h(1,2,7,8,9,10) c1 c2 c3 c4 show ?thesis by (intro conjI)
qed

lemma filter_kept_length:
  assumes "distinct xs" "distinct ys" "set ys \<subseteq> set xs"
  shows "length (filter (\<lambda>x. x \<notin> set ys) xs) + length ys = length xs"
proof -
  have "{x \<in> set xs. x \<in> set ys} = set ys" using assms(3) by auto
  then have "length (filter (\<lambda>x. x \<in> set ys) xs) = card (set ys)"
    using assms(1) by (simp add: distinct_length_filter Int_def conj_commute)
  then have "length (filter (\<lambda>x. x \<in> set ys) xs) = length ys"
    using assms(2) by (simp add: distinct_card)
  then show ?thesis
    using sum_length_filter_compl [of "\<lambda>x. x \<in> set ys" xs] by simp
qed

text \<open>
  C10. For two parents that list the same nodes, each of them without a repetition, and
  for every pair of crossover indices, the child of \<open>Crossover\<close> has the length of the
  parents.
\<close>

theorem Crossover_length:
  assumes "distinct Parent1" "distinct Parent2" "set Parent1 = set Parent2"
  shows "length (Crossover Parent1 Parent2 s e anchors) = length Parent1"
proof -
  define sec where "sec = py_slice Parent1 (max s 1) (min e (int (length Parent1) - 2) + 1)"
  define rem where "rem = filter (\<lambda>x. x \<notin> set sec) Parent2"
  have child: "crossover_construct Parent1 Parent2 s e =
      slice_to rem (max s 1) @ sec @ slice_from rem (max s 1)"
    by (simp add: crossover_construct_def Let_def sec_def rem_def)
  have sec: "distinct sec" "set sec \<subseteq> set Parent2"
    using assms py_slice_distinct [of Parent1] py_slice_set [of Parent1] by (auto simp: sec_def)
  have "length rem + length sec = length Parent2"
    unfolding rem_def by (rule filter_kept_length [OF assms(2) sec])
  moreover have "length (slice_to rem (max s 1)) + length (slice_from rem (max s 1)) = length rem"
    using slice_to_from [of rem "max s 1"] by (metis length_append)
  ultimately have len: "length (crossover_construct Parent1 Parent2 s e) = length Parent2"
    unfolding child by simp
  have "set (slice_to rem (max s 1)) \<union> set (slice_from rem (max s 1)) = set rem"
    using slice_to_from [of rem "max s 1"] by (metis set_append)
  then have "set (crossover_construct Parent1 Parent2 s e) = set rem \<union> set sec"
    unfolding child by auto
  also have "\<dots> = set Parent2" using sec(2) by (auto simp: rem_def)
  finally have "set (crossover_construct Parent1 Parent2 s e) = set Parent1"
    using assms(3) by simp
  then have "Crossover Parent1 Parent2 s e anchors = crossover_construct Parent1 Parent2 s e"
    by (simp add: Crossover_def Let_def)
  moreover have "length Parent1 = length Parent2"
    using assms by (metis distinct_card)
  ultimately show ?thesis using len by simp
qed

theorem Crossover_length_witness:
  "distinct [''A'', ''b'', ''c'', ''d'', ''E''] \<and> distinct [''A'', ''d'', ''b'', ''c'', ''E''] \<and>
   set [''A'', ''b'', ''c'', ''d'', ''E''] = set [''A'', ''d'', ''b'', ''c'', ''E''] \<and>
   length (Crossover [''A'', ''b'', ''c'', ''d'', ''E''] [''A'', ''d'', ''b'', ''c'', ''E''] 2 3
     [''A'', ''E'']) = 5"
proof -
  have h: "distinct [''A'', ''b'', ''c'', ''d'', ''E'']" "distinct [''A'', ''d'', ''b'', ''c'', ''E'']"
    "set [''A'', ''b'', ''c'', ''d'', ''E''] = set [''A'', ''d'', ''b'', ''c'', ''E'']"
    by auto
  have "length (Crossover [''A'', ''b'', ''c'', ''d'', ''E''] [''A'', ''d'', ''b'', ''c'', ''E''] 2 3
     [''A'', ''E'']) = length [''A'', ''b'', ''c'', ''d'', ''E'']"
    by (rule Crossover_length [OF h])
  also have "length [''A'', ''b'', ''c'', ''d'', ''E''] = 5" by simp
  finally show ?thesis using h by (intro conjI)
qed

section \<open>The initial population holds valid paths\<close>

lemma remove_nth_facts:
  assumes "j < length pool"
  shows "length (take j pool @ drop (Suc j) pool) = length pool - 1"
    and "set (take j pool @ drop (Suc j) pool) \<subseteq> set pool"
    and "distinct pool \<Longrightarrow> distinct (take j pool @ drop (Suc j) pool) \<and>
           pool ! j \<notin> set (take j pool @ drop (Suc j) pool)"
proof -
  show "length (take j pool @ drop (Suc j) pool) = length pool - 1"
    using assms by simp
  show "set (take j pool @ drop (Suc j) pool) \<subseteq> set pool"
    by (auto dest: in_set_takeD in_set_dropD)
  assume d: "distinct pool"
  have split: "pool = take j pool @ pool ! j # drop (Suc j) pool"
    using assms by (simp add: id_take_nth_drop)
  have "distinct (take j pool @ pool ! j # drop (Suc j) pool)"
    using d split by simp
  then show "distinct (take j pool @ drop (Suc j) pool) \<and>
           pool ! j \<notin> set (take j pool @ drop (Suc j) pool)"
    by auto
qed

lemma sample_loop_facts:
  "k \<le> length pool \<Longrightarrow> sample_loop pool k r = (xs, r') \<Longrightarrow>
     length xs = k \<and> set xs \<subseteq> set pool \<and> (distinct pool \<longrightarrow> distinct xs)"
proof (induction k arbitrary: pool r xs r')
  case 0
  then show ?case by simp
next
  case (Suc k)
  obtain d r1 where d: "next_draw r = (d, r1)" by (cases "next_draw r")
  define j where "j = d mod length pool"
  define pool' where "pool' = take j pool @ drop (Suc j) pool"
  obtain rest r2 where rest: "sample_loop pool' k r1 = (rest, r2)"
    by (cases "sample_loop pool' k r1")
  have "0 < length pool" using Suc.prems(1) by (cases pool) simp_all
  then have j: "j < length pool" unfolding j_def by (rule mod_less_divisor)
  have xs: "xs = pool ! j # rest"
    using Suc.prems(2) d rest by (simp add: j_def pool'_def Let_def)
  have len: "k \<le> length pool'"
    using Suc.prems(1) remove_nth_facts(1) [OF j] by (simp add: pool'_def)
  note IH = Suc.IH [OF len rest]
  have sub: "set pool' \<subseteq> set pool"
    unfolding pool'_def by (rule remove_nth_facts(2) [OF j])
  have "pool ! j \<in> set pool" using j by simp
  moreover have "distinct xs" if "distinct pool"
    using remove_nth_facts(3) [OF j that] IH unfolding xs pool'_def by auto
  ultimately show ?case using IH sub unfolding xs by auto
qed

lemma initial_loop_valid:
  assumes fps: "2 \<le> final_path_size"
    and attr: "set attractions = set (keys graph) - set anchors"
    and acc: "\<forall>p \<in> set acc. valid_initial_path graph st en final_path_size anchors p"
  shows "\<exists>pop r'. initial_loop k attractions st en final_path_size acc r = Inr (pop, r') \<and>
      (\<forall>p \<in> set pop. valid_initial_path graph st en final_path_size anchors p)"
  using acc
proof (induction k arbitrary: acc r)
  case 0
  then show ?case by simp
next
  case (Suc k)
  define remaining where
    "remaining = filter (\<lambda>a. a \<noteq> st \<and> a \<noteq> en) (remdups attractions)"
  define m where "m = min (int (length remaining)) (final_path_size - 2)"
  have rem_set: "set remaining = set (keys graph) - set anchors - {st, en}"
    using attr by (auto simp: remaining_def)
  have rem_dist: "distinct remaining" by (simp add: remaining_def)
  have rem_len: "length remaining = card (set (keys graph) - set anchors - {st, en})"
    using rem_set rem_dist by (metis distinct_card)
  have m: "0 \<le> m" "m \<le> int (length remaining)" using fps by (auto simp: m_def)
  obtain drawn r1 where dr: "sample_loop remaining (nat m) r = (drawn, r1)"
    by (cases "sample_loop remaining (nat m) r")
  have smp: "sample remaining m r = Inr (drawn, r1)"
    using m dr by (simp add: sample_def)
  have "nat m \<le> length remaining" using m by simp
  from sample_loop_facts [OF this dr] rem_dist
  have drawn: "length drawn = nat m" "set drawn \<subseteq> set remaining" "distinct drawn" by auto
  define path where "path = [st] @ drawn @ [en]"
  have "nat m + 2 = min (nat final_path_size) (length remaining + 2)"
    using fps by (auto simp: m_def)
  then have valid: "valid_initial_path graph st en final_path_size anchors path"
    using drawn rem_set rem_len
    by (simp add: valid_initial_path_def path_def interior_def)
  define acc' where "acc' = (if path \<in> set acc then acc else acc @ [path])"
  have acc': "\<forall>p \<in> set acc'. valid_initial_path graph st en final_path_size anchors p"
    using Suc.prems valid by (auto simp: acc'_def)
  have "initial_loop (Suc k) attractions st en final_path_size acc r =
      initial_loop k attractions st en final_path_size acc' r1"
    using smp by (simp add: remaining_def m_def path_def acc'_def Let_def)
  with Suc.IH [OF acc'] show ?case by simp
qed

text \<open>
  C6. When \<open>final_path_size\<close> is at least 2, \<open>CreateInitialPopulation\<close> returns
  without raising, for every size, graph, anchor list and tape, and every path it returns
  has length \<open>min final_path_size (a + 2)\<close>, where \<open>a\<close> is the number of graph nodes
  that are neither anchors nor the start nor the end, begins with the start attraction,
  ends with the end attraction, and has an interior of such nodes without a repetition.
\<close>

theorem CreateInitialPopulation_valid:
  assumes "2 \<le> final_path_size"
  shows "\<exists>pop r'. CreateInitialPopulation size' graph start_attraction end_attraction
        final_path_size all_start_end_points r = Inr (pop, r') \<and>
      (\<forall>path \<in> set pop. valid_initial_path graph start_attraction end_attraction
        final_path_size all_start_end_points path)"
  unfolding CreateInitialPopulation_def
  by (rule initial_loop_valid [OF assms]) auto


theorem CreateInitialPopulation_valid_witness:
  "(2::int) \<le> 4 \<and>
   CreateInitialPopulation 2
     [(''A'', [(''B'', 1)]), (''B'', [(''C'', 1)]), (''C'', [(''D'', 1)]), (''D'', [])]
     ''A'' ''D'' 4 [''A'', ''D''] [0, 0, 1, 0]
     = Inr ([[''A'', ''B'', ''C'', ''D''], [''A'', ''C'', ''B'', ''D'']], []) \<and>
   valid_initial_path
     [(''A'', [(''B'', 1)]), (''B'', [(''C'', 1)]), (''C'', [(''D'', 1)]), (''D'', [])]
     ''A'' ''D'' 4 [''A'', ''D''] [''A'', ''C'', ''B'', ''D'']"
proof -
  let ?g = "[(''A'', [(''B'', 1 :: real)]), (''B'', [(''C'', 1)]), (''C'', [(''D'', 1)]), (''D'', [])]"
  have h: "(2::int) \<le> 4" by simp
  have run: "CreateInitialPopulation 2 ?g ''A'' ''D'' 4 [''A'', ''D''] [0, 0, 1, 0]
     = Inr ([[''A'', ''B'', ''C'', ''D''], [''A'', ''C'', ''B'', ''D'']], [])"
    by code_simp
  from CreateInitialPopulation_valid [OF h, of 2 ?g "''A''" "''D''" "[''A'', ''D'']" "[0, 0, 1, 0]"]
  obtain pop r' where
    pop: "CreateInitialPopulation 2 ?g ''A'' ''D'' 4 [''A'', ''D''] [0, 0, 1, 0] = Inr (pop, r')"
    and valid: "\<forall>path \<in> set pop. valid_initial_path ?g ''A'' ''D'' 4 [''A'', ''D''] path"
    by blast
  from pop have "pop = [[''A'', ''B'', ''C'', ''D''], [''A'', ''C'', ''B'', ''D'']]"
    unfolding run by simp
  then have "[''A'', ''C'', ''B'', ''D''] \<in> set pop" by simp
  with valid have "valid_initial_path ?g ''A'' ''D'' 4 [''A'', ''D''] [''A'', ''C'', ''B'', ''D'']"
    by (rule bspec)
  with h run show ?thesis by (intro conjI)
qed

section \<open>Tournament selection fills the mating pool\<close>







section \<open>One generation\<close>

lemma generation_step_Inr:
  assumes "generation_step graph imr mmr dr anchors gen st = Inr st'"
  shows "\<exists>ranked top matingPool r1 newPopulation r2.
    rank_loop graph (enumerate 0 (population st)) = Inr ranked \<and>
    list_get (sort_key snd ranked) 0 = Inr top \<and>
    CreateMatingPool (population st) (sort_key snd ranked) 3 (rng_state st) = Inr (matingPool, r1) \<and>
    breed_loop (length (population st) div 2) matingPool graph anchors
      (max (imr - real gen * dr) mmr) r1 = Inr (newPopulation, r2) \<and>
    st' = \<lparr>population = newPopulation @ take (length (population st) div 2) (population st),
           bestPath = (if snd top < bestFitness st then population st ! fst top else bestPath st),
           bestFitness = (if snd top < bestFitness st then snd top else bestFitness st),
           rng_state = r2\<rparr>"
  using assms unfolding generation_step_def Let_def case_prod_beta bindE_Inr_iff
  by (elim exE conjE) (metis prod.collapse sum.inject(2))

lemma rank_loop_facts:
  "rank_loop graph (enumerate i pop) = Inr ranked \<Longrightarrow>
     map fst ranked = [i..<i + length pop] \<and>
     map (calculate_path_distance graph) pop = map (\<lambda>e. Inr (snd e)) ranked"
proof (induction pop arbitrary: i ranked)
  case Nil
  then show ?case by simp
next
  case (Cons p pop)
  from Cons.prems obtain f rest where
    f: "calculate_path_distance graph p = Inr f"
    and rest: "rank_loop graph (enumerate (Suc i) pop) = Inr rest"
    and ranked: "ranked = (i, f) # rest"
    by (auto simp: bindE_Inr_iff)
  from Cons.IH [OF rest] show ?case
    using f ranked by (simp add: upt_rec)
qed

lemma breed_loop_length:
  "breed_loop k matingPool graph anchors rate r = Inr (children, r') \<Longrightarrow> length children = k"
proof (induction k arbitrary: r children r')
  case 0
  then show ?case by simp
next
  case (Suc k)
  from Suc.prems obtain c rest r6 r7 where
    "breed_loop k matingPool graph anchors rate r6 = Inr (rest, r7)" "children = c # rest"
    unfolding breed_loop.simps Let_def case_prod_beta bindE_Inr_iff
    by (elim exE conjE) (metis prod.collapse sum.inject(2) prod.inject)
  with Suc.IH show ?case by auto
qed

lemma sort_key_head_least:
  fixes key :: "'a \<Rightarrow> dist"
  assumes "xs \<noteq> []"
  shows "hd (sort_key key xs) \<in> set xs \<and> (\<forall>e \<in> set xs. key (hd (sort_key key xs)) \<le> key e)"
proof -
  have ne: "sort_key key xs \<noteq> []" using assms by (metis length_sort length_0_conv)
  then obtain y ys where ys: "sort_key key xs = y # ys" by (cases "sort_key key xs") auto
  have "sorted (map key (sort_key key xs))" by simp
  then have "\<forall>e \<in> set ys. key y \<le> key e" unfolding ys by simp
  moreover have "set (y # ys) = set xs" using ys by (metis set_sort)
  ultimately show ?thesis unfolding ys by auto
qed


lemma generation_step_best:
  assumes "generation_step graph imr mmr dr anchors gen st = Inr st'"
  shows "\<exists>best \<in> set (population st). \<exists>f.
      calculate_path_distance graph best = Inr f \<and>
      (\<forall>p \<in> set (population st). \<exists>f'. calculate_path_distance graph p = Inr f' \<and> f \<le> f') \<and>
      bestFitness st' = min (bestFitness st) f \<and>
      bestPath st' = (if f < bestFitness st then best else bestPath st)"
proof -
  let ?pop = "population st"
  from generation_step_Inr [OF assms] obtain ranked top matingPool r1 newPopulation r2 where
    ranked: "rank_loop graph (enumerate 0 ?pop) = Inr ranked"
    and top: "list_get (sort_key snd ranked) 0 = Inr top"
    and st': "st' = \<lparr>population = newPopulation @ take (length ?pop div 2) ?pop,
           bestPath = (if snd top < bestFitness st then ?pop ! fst top else bestPath st),
           bestFitness = (if snd top < bestFitness st then snd top else bestFitness st),
           rng_state = r2\<rparr>"
    by blast
  from rank_loop_facts [OF ranked] have
    idx: "map fst ranked = [0..<length ?pop]"
    and fit: "map (calculate_path_distance graph) ?pop = map (\<lambda>e. Inr (snd e)) ranked"
    by simp_all
  have len: "length ranked = length ?pop"
    using idx by (metis length_map length_upt diff_zero)
  have nth_fit: "calculate_path_distance graph (?pop ! k) = Inr (snd (ranked ! k))"
    if "k < length ?pop" for k
    using fit that len by (metis (no_types, lifting) nth_map)
  have nth_idx: "fst (ranked ! k) = k" if "k < length ?pop" for k
    using idx that len by (metis add_0 nth_map nth_upt)
  have rne: "ranked \<noteq> []"
    using top by (auto simp: list_get_def split: if_splits)
  then have ne: "sort_key snd ranked \<noteq> []"
    by (metis length_sort length_0_conv)
  have "top = sort_key snd ranked ! 0"
    using top by (simp add: list_get_def split: if_splits)
  then have top_hd: "top = hd (sort_key snd ranked)"
    using ne by (simp add: hd_conv_nth)
  from sort_key_head_least [OF rne, of snd] top_hd
  have top_in: "top \<in> set ranked" and least: "\<forall>e \<in> set ranked. snd top \<le> snd e"
    by simp_all
  from top_in obtain j where j: "j < length ?pop" "top = ranked ! j"
    using len by (metis in_set_conv_nth)
  have fj: "fst top = j" using nth_idx j by simp
  have best_in: "?pop ! j \<in> set ?pop" using j by simp
  have best_fit: "calculate_path_distance graph (?pop ! j) = Inr (snd top)"
    using nth_fit j by simp
  have all: "\<exists>f'. calculate_path_distance graph p = Inr f' \<and> snd top \<le> f'"
    if "p \<in> set ?pop" for p
  proof -
    from that obtain k where k: "k < length ?pop" "p = ?pop ! k"
      by (metis in_set_conv_nth)
    have "ranked ! k \<in> set ranked" using k len by simp
    then have "snd top \<le> snd (ranked ! k)" using least by blast
    then show ?thesis using nth_fit k by blast
  qed
  have bf: "bestFitness st' = min (bestFitness st) (snd top)"
    unfolding st' by (auto simp: min_def)
  have bp: "bestPath st' = (if snd top < bestFitness st then ?pop ! j else bestPath st)"
    unfolding st' using fj by simp
  show ?thesis
    using best_in best_fit all bf bp by blast
qed

lemma generation_step_size:
  assumes "generation_step graph imr mmr dr anchors gen st = Inr st'"
  shows "\<exists>children. length children = length (population st) div 2 \<and>
     population st' = children @ take (length (population st) div 2) (population st)"
proof -
  from generation_step_Inr [OF assms] obtain matingPool r1 newPopulation r2 where
    breed: "breed_loop (length (population st) div 2) matingPool graph anchors
      (max (imr - real gen * dr) mmr) r1 = Inr (newPopulation, r2)"
    and pop: "population st' = newPopulation @ take (length (population st) div 2) (population st)"
    by force
  from breed_loop_length [OF breed] pop show ?thesis by blast
qed

section \<open>The states of a run\<close>

lemma trace_shape:
  "generations_trace graph imr mmr dr anchors gens st = Inr states \<Longrightarrow>
     length states = Suc (length gens) \<and> hd states = st \<and>
     generations_loop graph imr mmr dr anchors gens st = Inr (last states)"
proof (induction gens arbitrary: st states)
  case Nil
  then show ?case by auto
next
  case (Cons g gens)
  from Cons.prems obtain st1 states1 where
    step: "generation_step graph imr mmr dr anchors g st = Inr st1"
    and tr: "generations_trace graph imr mmr dr anchors gens st1 = Inr states1"
    and states: "states = st # states1"
    by (auto simp: bindE_Inr_iff)
  from Cons.IH [OF tr] have "length states1 = Suc (length gens)" "hd states1 = st1"
    "generations_loop graph imr mmr dr anchors gens st1 = Inr (last states1)"
    by simp_all
  moreover from this(1) have "states1 \<noteq> []" by auto
  ultimately show ?case using step states by simp
qed

lemma loop_has_trace:
  "generations_loop graph imr mmr dr anchors gens st = Inr fin \<Longrightarrow>
     \<exists>states. generations_trace graph imr mmr dr anchors gens st = Inr states"
proof (induction gens arbitrary: st)
  case Nil
  then show ?case by simp
next
  case (Cons g gens)
  from Cons.prems obtain st1 where
    step: "generation_step graph imr mmr dr anchors g st = Inr st1"
    and loop: "generations_loop graph imr mmr dr anchors gens st1 = Inr fin"
    by (auto simp: bindE_Inr_iff)
  from Cons.IH [OF loop] obtain states1 where
    "generations_trace graph imr mmr dr anchors gens st1 = Inr states1" by blast
  with step show ?case by simp
qed

lemma trace_steps:
  "generations_trace graph imr mmr dr anchors gens st = Inr states \<Longrightarrow> i < length gens \<Longrightarrow>
     generation_step graph imr mmr dr anchors (gens ! i) (states ! i) = Inr (states ! Suc i)"
proof (induction gens arbitrary: st states i)
  case Nil
  then show ?case by simp
next
  case (Cons g gens)
  from Cons.prems(1) obtain st1 states1 where
    step: "generation_step graph imr mmr dr anchors g st = Inr st1"
    and tr: "generations_trace graph imr mmr dr anchors gens st1 = Inr states1"
    and states: "states = st # states1"
    by (auto simp: bindE_Inr_iff)
  from trace_shape [OF tr] have hd1: "hd states1 = st1" and ne: "states1 \<noteq> []" by auto
  show ?case
  proof (cases i)
    case 0
    then show ?thesis using step states hd1 ne by (simp add: hd_conv_nth)
  next
    case (Suc j)
    then have "j < length gens" using Cons.prems(2) by simp
    from Cons.IH [OF tr this] show ?thesis using Suc states by simp
  qed
qed

lemma trace_best:
  assumes "generations_trace graph imr mmr dr anchors gens st = Inr states"
  shows "(\<forall>s \<in> set (butlast states). \<forall>p \<in> set (population s).
           \<exists>f. calculate_path_distance graph p = Inr f \<and> bestFitness (last states) \<le> f) \<and>
    bestFitness (last states) \<le> bestFitness st \<and>
    ((bestFitness (last states) = bestFitness st \<and> bestPath (last states) = bestPath st) \<or>
     (bestFitness (last states) < bestFitness st \<and>
      (\<exists>s \<in> set (butlast states). bestPath (last states) \<in> set (population s)) \<and>
      calculate_path_distance graph (bestPath (last states)) = Inr (bestFitness (last states)))) \<and>
    (gens \<noteq> [] \<longrightarrow> population st \<noteq> [])"
  using assms
proof (induction gens arbitrary: st states)
  case Nil
  then show ?case by auto
next
  case (Cons g gens)
  from Cons.prems obtain st1 states1 where
    step: "generation_step graph imr mmr dr anchors g st = Inr st1"
    and tr: "generations_trace graph imr mmr dr anchors gens st1 = Inr states1"
    and states: "states = st # states1"
    by (auto simp: bindE_Inr_iff)
  from trace_shape [OF tr] have ne: "states1 \<noteq> []" by auto
  have last: "last states = last states1" and bl: "butlast states = st # butlast states1"
    using states ne by simp_all
  let ?fin = "last states1"
  note IH = Cons.IH [OF tr]
  from generation_step_best [OF step] obtain best f where
    best: "best \<in> set (population st)" "calculate_path_distance graph best = Inr f"
    and least: "\<forall>p \<in> set (population st). \<exists>f'. calculate_path_distance graph p = Inr f' \<and> f \<le> f'"
    and bf: "bestFitness st1 = min (bestFitness st) f"
    and bp: "bestPath st1 = (if f < bestFitness st then best else bestPath st)"
    by blast
  have fin_le: "bestFitness ?fin \<le> bestFitness st1" using IH by blast
  have le_f: "bestFitness ?fin \<le> f" using fin_le bf by simp
  have a: "\<forall>s \<in> set (butlast states). \<forall>p \<in> set (population s).
           \<exists>f. calculate_path_distance graph p = Inr f \<and> bestFitness (last states) \<le> f"
  proof (intro ballI)
    fix s p assume s: "s \<in> set (butlast states)" and p: "p \<in> set (population s)"
    show "\<exists>f. calculate_path_distance graph p = Inr f \<and> bestFitness (last states) \<le> f"
    proof (cases "s = st")
      case True
      with p least obtain f' where "calculate_path_distance graph p = Inr f'" "f \<le> f'" by blast
      then show ?thesis using le_f last by (metis order_trans)
    next
      case False
      then have "s \<in> set (butlast states1)" using s bl by simp
      then show ?thesis using IH p last by metis
    qed
  qed
  have b: "bestFitness (last states) \<le> bestFitness st"
    using fin_le bf last by simp
  have c: "(bestFitness (last states) = bestFitness st \<and> bestPath (last states) = bestPath st) \<or>
     (bestFitness (last states) < bestFitness st \<and>
      (\<exists>s \<in> set (butlast states). bestPath (last states) \<in> set (population s)) \<and>
      calculate_path_distance graph (bestPath (last states)) = Inr (bestFitness (last states)))"
  proof -
    from IH consider
      (same) "bestFitness ?fin = bestFitness st1" "bestPath ?fin = bestPath st1"
      | (better) "bestFitness ?fin < bestFitness st1"
          "\<exists>s \<in> set (butlast states1). bestPath ?fin \<in> set (population s)"
          "calculate_path_distance graph (bestPath ?fin) = Inr (bestFitness ?fin)"
      by blast
    then show ?thesis
    proof cases
      case same
      show ?thesis
      proof (cases "f < bestFitness st")
        case True
        then have "bestFitness st1 = f" "bestPath st1 = best" using bf bp by simp_all
        with same True best have "bestFitness ?fin < bestFitness st"
          "bestPath ?fin \<in> set (population st)"
          "calculate_path_distance graph (bestPath ?fin) = Inr (bestFitness ?fin)"
          by simp_all
        then show ?thesis unfolding last bl by auto
      next
        case False
        then have "bestFitness st \<le> f" by simp
        then have "bestFitness st1 = bestFitness st" "bestPath st1 = bestPath st"
          using bf bp False by (simp_all add: min_def)
        with same show ?thesis unfolding last by simp
      qed
    next
      case better
      have "bestFitness st1 \<le> bestFitness st" using bf by simp
      with better(1) have "bestFitness ?fin < bestFitness st" by simp
      with better(2,3) show ?thesis unfolding last bl by auto
    qed
  qed
  have d: "population st \<noteq> []" using best(1) by auto
  show ?case using a b c d by blast
qed

section \<open>Population size and elitism\<close>

lemma step_of_four:
  "generation_step graph_four (1/2) (1/10) (2/5) [''A'', ''E''] 0
     (initial_state
        [[''A'', ''d'', ''E''], [''A'', ''c'', ''E''], [''A'', ''b'', ''E''], [''A'', ''e'', ''E'']] [])
   = Inr \<lparr>population =
            [[''A'', ''e'', ''E''], [''A'', ''e'', ''E''], [''A'', ''d'', ''E''], [''A'', ''c'', ''E'']],
          bestPath = [''A'', ''e'', ''E''], bestFitness = Fin 2, rng_state = []\<rparr>"
  by code_simp

lemma fitness_of_four:
  "calculate_path_distance graph_four [''A'', ''d'', ''E''] = Inr (Fin 8)"
  "calculate_path_distance graph_four [''A'', ''c'', ''E''] = Inr (Fin 6)"
  "calculate_path_distance graph_four [''A'', ''b'', ''E''] = Inr (Fin 4)"
  "calculate_path_distance graph_four [''A'', ''e'', ''E''] = Inr (Fin 2)"
  by code_simp+

text \<open>
  C5, as the code has it. A generation that completes leaves a population of
  \<open>2 * (n div 2)\<close> paths, where \<open>n\<close> is the size before it: \<open>n div 2\<close> children and the
  first \<open>n div 2\<close> paths of the old population. The size is kept when \<open>n\<close> is even and
  drops by one when \<open>n\<close> is odd.
\<close>

theorem generation_step_population_size:
  assumes "generation_step graph initial_mutation_rate minimum_mutation_rate decay_rate
      all_start_end_points generation st = Inr st'"
  shows "length (population st') = 2 * (length (population st) div 2) \<and>
    (even (length (population st)) \<longrightarrow> length (population st') = length (population st)) \<and>
    (odd (length (population st)) \<longrightarrow> length (population st') = length (population st) - 1)"
proof -
  from generation_step_size [OF assms] obtain children where
    "length children = length (population st) div 2"
    "population st' = children @ take (length (population st) div 2) (population st)"
    by blast
  then have "length (population st') = 2 * (length (population st) div 2)"
    by simp
  then show ?thesis by presburger
qed

theorem generation_step_population_size_witness:
  "generation_step graph_four (1/2) (1/10) (2/5) [''A'', ''E''] 0
     (initial_state
        [[''A'', ''d'', ''E''], [''A'', ''c'', ''E''], [''A'', ''b'', ''E''], [''A'', ''e'', ''E'']] [])
   = Inr \<lparr>population =
            [[''A'', ''e'', ''E''], [''A'', ''e'', ''E''], [''A'', ''d'', ''E''], [''A'', ''c'', ''E'']],
          bestPath = [''A'', ''e'', ''E''], bestFitness = Fin 2, rng_state = []\<rparr> \<and>
   length (population \<lparr>population =
            [[''A'', ''e'', ''E''], [''A'', ''e'', ''E''], [''A'', ''d'', ''E''], [''A'', ''c'', ''E'']],
          bestPath = [''A'', ''e'', ''E''], bestFitness = Fin 2, rng_state = []\<rparr>) =
   2 * (length (population (initial_state
        [[''A'', ''d'', ''E''], [''A'', ''c'', ''E''], [''A'', ''b'', ''E''], [''A'', ''e'', ''E'']] []))
      div 2)"
proof -
  note size = generation_step_population_size [OF step_of_four, THEN conjunct1]
  from step_of_four size show ?thesis by (intro conjI)
qed

text \<open>
  C5 as stated fails for an odd size: a run with three distinct initial paths has a
  population of two after its first generation.
\<close>

theorem generation_step_population_size_counterexample:
  "run_trace graph_four 3 ''A'' ''E'' 3 1 (1/2) (1/10) [''A'', ''E''] [2, 1, 0]
   = Inr [\<lparr>population = [[''A'', ''d'', ''E''], [''A'', ''c'', ''E''], [''A'', ''b'', ''E'']],
            bestPath = [], bestFitness = PInf, rng_state = []\<rparr>,
          \<lparr>population = [[''A'', ''b'', ''E''], [''A'', ''d'', ''E'']],
            bestPath = [''A'', ''b'', ''E''], bestFitness = Fin 4, rng_state = []\<rparr>] \<and>
   length [[''A'', ''d'', ''E''], [''A'', ''c'', ''E''], [''A'', ''b'', ''E'']] = 3 \<and>
   length [[''A'', ''b'', ''E''], [''A'', ''d'', ''E'']] = 2"
  by code_simp

text \<open>
  C2. The retained half is the first half of the old population in population order, not
  its best half: only \<open>RankList\<close> is sorted, the population is not. Here the old
  population lists the paths of cost 8, 6, 4, 2 in this order; the new one keeps those
  of cost 8 and 6, the two worst, and the path of cost 4 is lost.
\<close>

theorem generation_step_keeps_first_half:
  "generation_step graph_four (1/2) (1/10) (2/5) [''A'', ''E''] 0
     (initial_state
        [[''A'', ''d'', ''E''], [''A'', ''c'', ''E''], [''A'', ''b'', ''E''], [''A'', ''e'', ''E'']] [])
   = Inr \<lparr>population =
            [[''A'', ''e'', ''E''], [''A'', ''e'', ''E''], [''A'', ''d'', ''E''], [''A'', ''c'', ''E'']],
          bestPath = [''A'', ''e'', ''E''], bestFitness = Fin 2, rng_state = []\<rparr> \<and>
   calculate_path_distance graph_four [''A'', ''d'', ''E''] = Inr (Fin 8) \<and>
   calculate_path_distance graph_four [''A'', ''c'', ''E''] = Inr (Fin 6) \<and>
   calculate_path_distance graph_four [''A'', ''b'', ''E''] = Inr (Fin 4) \<and>
   calculate_path_distance graph_four [''A'', ''e'', ''E''] = Inr (Fin 2)"
  using step_of_four fitness_of_four by (intro conjI)

section \<open>The best-so-far record of a run\<close>

lemma run_of_four:
  "run_genetic_algorithm graph_four 4 ''A'' ''E'' 3 2 (1/2) (1/10) [''A'', ''E''] [2, 1, 0, 3]
     = Inr ([''A'', ''e'', ''E''], Fin 2)"
  by code_simp

text \<open>
  C1, as the code has it. Whenever \<open>run_genetic_algorithm\<close> returns, the run has one
  state before each generation and a last one; the returned pair is the best-so-far
  record of the last state; the returned fitness is at most the fitness of every path of
  every evaluated population and, when a generation ran, is the fitness of one of them;
  from one state to the next the best-so-far fitness never grows, and the record changes
  only when the fitness gets strictly smaller. When the returned fitness is finite, the
  returned path is a member of an evaluated population and has that fitness; when it is
  infinite, the returned path is the empty list.
\<close>

theorem run_genetic_algorithm_best:
  assumes "run_genetic_algorithm graph initial_pop_size start_attraction end_attraction
      final_path_size generations initial_mutation_rate minimum_mutation_rate
      all_start_end_points r = Inr (path, fitness)"
  shows "\<exists>states. run_trace graph initial_pop_size start_attraction end_attraction
        final_path_size generations initial_mutation_rate minimum_mutation_rate
        all_start_end_points r = Inr states \<and>
      length states = Suc (nat generations) \<and>
      path = bestPath (last states) \<and> fitness = bestFitness (last states) \<and>
      (\<forall>s \<in> set (butlast states). \<forall>p \<in> set (population s).
         \<exists>f. calculate_path_distance graph p = Inr f \<and> fitness \<le> f) \<and>
      (0 < generations \<longrightarrow>
         (\<exists>s \<in> set (butlast states). \<exists>p \<in> set (population s).
            calculate_path_distance graph p = Inr fitness)) \<and>
      (fitness \<noteq> PInf \<longrightarrow>
         (\<exists>s \<in> set (butlast states). path \<in> set (population s)) \<and>
         calculate_path_distance graph path = Inr fitness) \<and>
      (fitness = PInf \<longrightarrow> path = []) \<and>
      (\<forall>i < nat generations.
         bestFitness (states ! Suc i) \<le> bestFitness (states ! i) \<and>
         (bestFitness (states ! Suc i) < bestFitness (states ! i) \<or>
          (bestFitness (states ! Suc i) = bestFitness (states ! i) \<and>
           bestPath (states ! Suc i) = bestPath (states ! i))))"
proof -
  define dr where
    "dr = (initial_mutation_rate - minimum_mutation_rate) / real_of_int generations"
  let ?imr = initial_mutation_rate and ?mmr = minimum_mutation_rate
    and ?an = all_start_end_points
  let ?gens = "[0..<nat generations]"
  from assms have g0: "generations \<noteq> 0"
    by (auto simp: run_genetic_algorithm_def split: if_splits)
  from assms g0 have "\<exists>x fin.
      CreateInitialPopulation initial_pop_size graph start_attraction end_attraction
        final_path_size ?an r = Inr x \<and>
      generations_loop graph ?imr ?mmr dr ?an ?gens (initial_state (fst x) (snd x)) = Inr fin \<and>
      (bestPath fin, bestFitness fin) = (path, fitness)"
    unfolding run_genetic_algorithm_def Let_def case_prod_beta dr_def
    by (simp add: bindE_Inr_iff)
  then obtain pop r1 fin where
    init: "CreateInitialPopulation initial_pop_size graph start_attraction end_attraction
        final_path_size ?an r = Inr (pop, r1)"
    and loop: "generations_loop graph ?imr ?mmr dr ?an ?gens (initial_state pop r1) = Inr fin"
    and res: "path = bestPath fin" "fitness = bestFitness fin"
    by (metis prod.collapse prod.inject)
  from loop_has_trace [OF loop] obtain states where
    tr: "generations_trace graph ?imr ?mmr dr ?an ?gens (initial_state pop r1) = Inr states"
    by blast
  from trace_shape [OF tr] loop have
    len: "length states = Suc (nat generations)" and hd: "hd states = initial_state pop r1"
    and fin: "fin = last states"
    by simp_all
  have rt: "run_trace graph initial_pop_size start_attraction end_attraction
        final_path_size generations ?imr ?mmr ?an r = Inr states"
    using g0 init tr by (simp add: run_trace_def dr_def)
  note best = trace_best [OF tr]
  have b0: "bestFitness (initial_state pop r1) = PInf" "bestPath (initial_state pop r1) = []"
    by (simp_all add: initial_state_def)
  have lower: "\<forall>s \<in> set (butlast states). \<forall>p \<in> set (population s).
         \<exists>f. calculate_path_distance graph p = Inr f \<and> fitness \<le> f"
    using best res fin by blast
  have fin_case: "(fitness = PInf \<and> path = []) \<or>
     (fitness < PInf \<and> (\<exists>s \<in> set (butlast states). path \<in> set (population s)) \<and>
      calculate_path_distance graph path = Inr fitness)"
    using best res fin b0 by metis
  have finite: "(\<exists>s \<in> set (butlast states). path \<in> set (population s)) \<and>
         calculate_path_distance graph path = Inr fitness" if "fitness \<noteq> PInf"
    using fin_case that by blast
  have inf: "path = []" if "fitness = PInf"
    using fin_case that by auto
  have attained: "\<exists>s \<in> set (butlast states). \<exists>p \<in> set (population s).
            calculate_path_distance graph p = Inr fitness" if "0 < generations"
  proof (cases "fitness = PInf")
    case False
    with finite show ?thesis by blast
  next
    case True
    from that have "?gens \<noteq> []" by simp
    with best have "population (initial_state pop r1) \<noteq> []" by blast
    then obtain p where p: "p \<in> set (population (hd states))" using hd by (cases "population (hd states)") auto
    obtain x xs where sx: "states = x # xs" using len by (cases states) auto
    have "length xs = nat generations" using len sx by simp
    then have "xs \<noteq> []" using that by auto
    then have "hd states \<in> set (butlast states)"
      unfolding sx by simp
    moreover from lower this p obtain f where
      "calculate_path_distance graph p = Inr f" "fitness \<le> f" by blast
    moreover from this True have "f = PInf" by (cases f) simp_all
    ultimately show ?thesis using p True by blast
  qed
  have steps: "bestFitness (states ! Suc i) \<le> bestFitness (states ! i) \<and>
         (bestFitness (states ! Suc i) < bestFitness (states ! i) \<or>
          (bestFitness (states ! Suc i) = bestFitness (states ! i) \<and>
           bestPath (states ! Suc i) = bestPath (states ! i)))" if "i < nat generations" for i
  proof -
    from that have "i < length ?gens" by simp
    from trace_steps [OF tr this] obtain best f where
      bf: "bestFitness (states ! Suc i) = min (bestFitness (states ! i)) f"
      and bp: "bestPath (states ! Suc i) = (if f < bestFitness (states ! i) then best else bestPath (states ! i))"
      using generation_step_best by blast
    show ?thesis
    proof (cases "f < bestFitness (states ! i)")
      case True
      then show ?thesis using bf by simp
    next
      case False
      then have "bestFitness (states ! i) \<le> f" by simp
      then show ?thesis using bf bp False by (simp add: min_def)
    qed
  qed
  show ?thesis
    using rt len res fin lower attained finite inf steps by blast
qed

theorem run_genetic_algorithm_best_witness:
  "run_genetic_algorithm graph_four 4 ''A'' ''E'' 3 2 (1/2) (1/10) [''A'', ''E''] [2, 1, 0, 3]
     = Inr ([''A'', ''e'', ''E''], Fin 2) \<and>
   (\<exists>states.
      run_trace graph_four 4 ''A'' ''E'' 3 2 (1/2) (1/10) [''A'', ''E''] [2, 1, 0, 3] = Inr states \<and>
      length states = 3 \<and> bestPath (last states) = [''A'', ''e'', ''E''] \<and>
      bestFitness (last states) = Fin 2 \<and>
      (\<exists>s \<in> set (butlast states). [''A'', ''e'', ''E''] \<in> set (population s)) \<and>
      bestFitness (states ! 1) \<le> bestFitness (states ! 0)) \<and>
   calculate_path_distance graph_four [''A'', ''e'', ''E''] = Inr (Fin 2)"
proof -
  let ?path = "[''A'', ''e'', ''E'']"
  from run_genetic_algorithm_best [OF run_of_four] obtain states where
    tr: "run_trace graph_four 4 ''A'' ''E'' 3 2 (1/2) (1/10) [''A'', ''E''] [2, 1, 0, 3] = Inr states"
    and len: "length states = Suc (nat 2)"
    and res: "?path = bestPath (last states)" "Fin 2 = bestFitness (last states)"
    and fin: "Fin 2 \<noteq> PInf \<longrightarrow>
         (\<exists>s \<in> set (butlast states). ?path \<in> set (population s)) \<and>
         calculate_path_distance graph_four ?path = Inr (Fin 2)"
    and steps: "\<forall>i < nat 2. bestFitness (states ! Suc i) \<le> bestFitness (states ! i) \<and>
         (bestFitness (states ! Suc i) < bestFitness (states ! i) \<or>
          (bestFitness (states ! Suc i) = bestFitness (states ! i) \<and>
           bestPath (states ! Suc i) = bestPath (states ! i)))"
    by blast
  from fin have att: "\<exists>s \<in> set (butlast states). ?path \<in> set (population s)"
    and fit: "calculate_path_distance graph_four ?path = Inr (Fin 2)"
    by simp_all
  from steps have "bestFitness (states ! 1) \<le> bestFitness (states ! 0)"
    by (metis One_nat_def nat_numeral numeral_2_eq_2 zero_less_Suc)
  moreover from len have "length states = 3" by simp
  ultimately have "\<exists>states.
      run_trace graph_four 4 ''A'' ''E'' 3 2 (1/2) (1/10) [''A'', ''E''] [2, 1, 0, 3] = Inr states \<and>
      length states = 3 \<and> bestPath (last states) = ?path \<and>
      bestFitness (last states) = Fin 2 \<and>
      (\<exists>s \<in> set (butlast states). ?path \<in> set (population s)) \<and>
      bestFitness (states ! 1) \<le> bestFitness (states ! 0)"
    using tr res att by metis
  with run_of_four fit show ?thesis by (intro conjI)
qed

text \<open>
  C1 as stated fails in two ways. When every path has infinite fitness the record is never
  updated: the run returns the empty path with fitness infinity, and the empty path has
  distance 0. And a well-formed input need not make the run return: with
  \<open>final_path_size = 2\<close> there is one candidate \<open>A, E\<close> only, and the tournament of
  three raises ValueError.
\<close>

theorem run_genetic_algorithm_best_counterexample:
  "run_genetic_algorithm graph_no_exit 3 ''A'' ''E'' 3 1 (1/2) (1/10) [''A'', ''E''] [2, 1, 0]
     = Inr ([], PInf) \<and>
   calculate_path_distance graph_no_exit [] = Inr (Fin 0) \<and>
   run_genetic_algorithm graph_four 4 ''A'' ''E'' 2 1 (1/2) (1/10) [''A'', ''E''] []
     = Inl ValueError"
  by code_simp

section \<open>Malformed configurations\<close>

lemma initial_loop_Suc_Inr:
  assumes "initial_loop (Suc k) attractions st en fps acc r = Inr res"
  shows "\<exists>drawn r1. initial_loop k attractions st en fps
      (if [st] @ drawn @ [en] \<in> set acc then acc else acc @ [[st] @ drawn @ [en]]) r1 = Inr res"
  using assms unfolding initial_loop.simps Let_def case_prod_beta bindE_Inr_iff
  by (elim exE conjE, intro exI) assumption

lemma initial_loop_length:
  "initial_loop k attractions st en fps acc r = Inr (pop, r') \<Longrightarrow> length pop \<le> length acc + k"
proof (induction k arbitrary: acc r)
  case 0
  then show ?case by simp
next
  case (Suc k)
  from initial_loop_Suc_Inr [OF Suc.prems] obtain drawn r1 where step:
    "initial_loop k attractions st en fps
      (if [st] @ drawn @ [en] \<in> set acc then acc else acc @ [[st] @ drawn @ [en]]) r1 = Inr (pop, r')"
    by blast
  define acc' where
    "acc' = (if [st] @ drawn @ [en] \<in> set acc then acc else acc @ [[st] @ drawn @ [en]])"
  have "initial_loop k attractions st en fps acc' r1 = Inr (pop, r')"
    "length acc' \<le> Suc (length acc)"
    using step by (simp_all add: acc'_def)
  with Suc.IH [of acc' r1] show ?case by simp
qed

lemma initial_loop_nonempty:
  "initial_loop k attractions st en fps acc r = Inr (pop, r') \<Longrightarrow> acc \<noteq> [] \<or> 0 < k \<Longrightarrow>
     pop \<noteq> []"
proof (induction k arbitrary: acc r)
  case 0
  then show ?case by simp
next
  case (Suc k)
  from initial_loop_Suc_Inr [OF Suc.prems(1)] obtain drawn r1 where step:
    "initial_loop k attractions st en fps
      (if [st] @ drawn @ [en] \<in> set acc then acc else acc @ [[st] @ drawn @ [en]]) r1 = Inr (pop, r')"
    by blast
  define acc' where
    "acc' = (if [st] @ drawn @ [en] \<in> set acc then acc else acc @ [[st] @ drawn @ [en]])"
  have "initial_loop k attractions st en fps acc' r1 = Inr (pop, r')" "acc' \<noteq> []"
    using step by (auto simp: acc'_def)
  with Suc.IH [of acc' r1] show ?case by simp
qed

lemma initial_loop_negative_sample:
  "final_path_size < 2 \<Longrightarrow>
     initial_loop (Suc k) attractions st en final_path_size acc r = Inl ValueError"
  by (simp add: Let_def sample_def)

lemma small_population_step_fails:
  assumes "length (population st) < 3"
  shows "\<exists>e. generation_step graph imr mmr dr anchors gen st = Inl e"
proof (rule ccontr)
  assume "\<not> (\<exists>e. generation_step graph imr mmr dr anchors gen st = Inl e)"
  then obtain st' where "generation_step graph imr mmr dr anchors gen st = Inr st'"
    by (cases "generation_step graph imr mmr dr anchors gen st") auto
  from generation_step_Inr [OF this] obtain ranked top matingPool r1 where
    ranked: "rank_loop graph (enumerate 0 (population st)) = Inr ranked"
    and top: "list_get (sort_key snd ranked) 0 = Inr top"
    and pool: "CreateMatingPool (population st) (sort_key snd ranked) 3 (rng_state st)
        = Inr (matingPool, r1)"
    by blast
  from rank_loop_facts [OF ranked] have "length ranked = length (population st)"
    by (metis length_map)
  moreover from top have "ranked \<noteq> []" by (auto simp: list_get_def split: if_splits)
  ultimately obtain k where k: "length (population st) = Suc k"
    by (cases "population st") auto
  have "sample (sort_key snd ranked) 3 (rng_state st) = Inl ValueError"
    using assms \<open>length ranked = length (population st)\<close> by (simp add: sample_def)
  then have "CreateMatingPool (population st) (sort_key snd ranked) 3 (rng_state st)
      = Inl ValueError"
    unfolding CreateMatingPool_def k by simp
  with pool show False by simp
qed

lemma missing_start_distance:
  assumes "2 \<le> length path" "hd path \<notin> fst ` set graph"
  shows "calculate_path_distance graph path = Inl KeyError"
proof -
  have "[0..<length path - 1] = 0 # [1..<length path - 1]"
    using assms(1) by (simp add: upt_conv_Cons)
  moreover have "path ! 0 = hd path" using assms(1) by (cases path) auto
  moreover have "map_of graph (hd path) = None"
    using assms(2) by (simp add: map_of_eq_None_iff)
  ultimately show ?thesis by (simp add: calculate_path_distance_def)
qed

lemma first_generation:
  assumes "0 < generations"
  shows "generations_loop graph imr mmr dr anchors [0..<nat generations] st =
      bindE (generation_step graph imr mmr dr anchors 0 st)
        (generations_loop graph imr mmr dr anchors [1..<nat generations])"
proof -
  have "[0..<nat generations] = 0 # [1..<nat generations]"
    using assms by (simp add: upt_conv_Cons)
  then show ?thesis by simp
qed


lemma initial_population_total:
  assumes "2 \<le> final_path_size"
  shows "\<exists>pop r1. CreateInitialPopulation size' graph st en final_path_size anchors r = Inr (pop, r1) \<and>
      length pop \<le> nat size' \<and> (0 < size' \<longrightarrow> pop \<noteq> []) \<and>
      (\<forall>p \<in> set pop. 2 \<le> length p \<and> hd p = st)"
proof -
  let ?attr = "filter (\<lambda>attraction. attraction \<notin> set anchors) (keys graph)"
  have "set ?attr = set (keys graph) - set anchors" by auto
  from initial_loop_valid [OF assms this, of "[]" st en "nat size'" r]
  obtain pop r1 where
    run: "initial_loop (nat size') ?attr st en final_path_size [] r = Inr (pop, r1)"
    and valid: "\<forall>p \<in> set pop. valid_initial_path graph st en final_path_size anchors p"
    by auto
  have "length pop \<le> nat size'"
    using initial_loop_length [OF run] by simp
  moreover have "pop \<noteq> []" if "0 < size'"
    using initial_loop_nonempty [OF run] that by simp
  moreover have "2 \<le> length p \<and> hd p = st" if "p \<in> set pop" for p
    using valid that assms by (auto simp: valid_initial_path_def)
  ultimately show ?thesis
    using run unfolding CreateInitialPopulation_def by blast
qed

text \<open>
  C4, as the code has it. \<open>run_genetic_algorithm\<close> checks nothing itself; what a
  malformed configuration does is what the first operation that cannot cope with it does.
  \<^item> \<open>generations = 0\<close>: ZeroDivisionError from the decay rate, before the population
    is built.
  \<^item> \<open>final_path_size < 2\<close> with a positive population size: ValueError from the
    negative sample size while the initial population is built, before any generation.
  \<^item> A population size below 3, the tournament size (so also one below 2), with
    \<open>generations \<ge> 1\<close> and \<open>final_path_size \<ge> 2\<close>: the initial population is built
    and the first generation raises.
  \<^item> A start attraction that is not a key of the graph, with a positive population
    size, \<open>generations \<ge> 1\<close> and \<open>final_path_size \<ge> 2\<close>: the initial population is
    built and the first generation raises KeyError when it ranks the first path.
  \<^item> \<open>generations < 0\<close> with \<open>final_path_size \<ge> 2\<close>: no error; the run returns the
    empty path and fitness infinity.
\<close>

theorem run_genetic_algorithm_malformed:
  "(generations = 0 \<longrightarrow>
      run_genetic_algorithm graph initial_pop_size start_attraction end_attraction
        final_path_size generations imr mmr all_start_end_points r = Inl ZeroDivisionError) \<and>
   (generations \<noteq> 0 \<and> final_path_size < 2 \<and> 0 < initial_pop_size \<longrightarrow>
      CreateInitialPopulation initial_pop_size graph start_attraction end_attraction
        final_path_size all_start_end_points r = Inl ValueError \<and>
      run_genetic_algorithm graph initial_pop_size start_attraction end_attraction
        final_path_size generations imr mmr all_start_end_points r = Inl ValueError) \<and>
   (0 < generations \<and> 2 \<le> final_path_size \<and> initial_pop_size < 3 \<longrightarrow>
      (\<exists>pop r1 e.
         CreateInitialPopulation initial_pop_size graph start_attraction end_attraction
           final_path_size all_start_end_points r = Inr (pop, r1) \<and>
         generation_step graph imr mmr ((imr - mmr) / real_of_int generations)
           all_start_end_points 0 (initial_state pop r1) = Inl e \<and>
         run_genetic_algorithm graph initial_pop_size start_attraction end_attraction
           final_path_size generations imr mmr all_start_end_points r = Inl e)) \<and>
   (0 < generations \<and> 2 \<le> final_path_size \<and> 0 < initial_pop_size \<and>
    start_attraction \<notin> fst ` set graph \<longrightarrow>
      (\<exists>pop r1.
         CreateInitialPopulation initial_pop_size graph start_attraction end_attraction
           final_path_size all_start_end_points r = Inr (pop, r1) \<and>
         generation_step graph imr mmr ((imr - mmr) / real_of_int generations)
           all_start_end_points 0 (initial_state pop r1) = Inl KeyError \<and>
         run_genetic_algorithm graph initial_pop_size start_attraction end_attraction
           final_path_size generations imr mmr all_start_end_points r = Inl KeyError)) \<and>
   (generations < 0 \<and> 2 \<le> final_path_size \<longrightarrow>
      run_genetic_algorithm graph initial_pop_size start_attraction end_attraction
        final_path_size generations imr mmr all_start_end_points r = Inr ([], PInf))"
proof -
  let ?run = "run_genetic_algorithm graph initial_pop_size start_attraction end_attraction
        final_path_size generations imr mmr all_start_end_points r"
  let ?init = "CreateInitialPopulation initial_pop_size graph start_attraction end_attraction
        final_path_size all_start_end_points r"
  let ?dr = "(imr - mmr) / real_of_int generations"
  let ?an = all_start_end_points
  have zero: "?run = Inl ZeroDivisionError" if "generations = 0"
    using that by (simp add: run_genetic_algorithm_def)
  have short: "?init = Inl ValueError \<and> ?run = Inl ValueError"
    if "generations \<noteq> 0 \<and> final_path_size < 2 \<and> 0 < initial_pop_size"
  proof -
    from that obtain k where k: "nat initial_pop_size = Suc k"
      by (cases "nat initial_pop_size") auto
    have "?init = Inl ValueError"
      unfolding CreateInitialPopulation_def k
      using that by (intro initial_loop_negative_sample) simp
    then show ?thesis using that by (simp add: run_genetic_algorithm_def)
  qed
  have run_first: "?run = Inl e"
    if "0 < generations" "?init = Inr (pop, r1)"
      "generation_step graph imr mmr ?dr ?an 0 (initial_state pop r1) = Inl e" for pop r1 e
    using that first_generation [OF that(1), of graph imr mmr ?dr ?an "initial_state pop r1"]
    by (simp add: run_genetic_algorithm_def)
  have small: "\<exists>pop r1 e. ?init = Inr (pop, r1) \<and>
         generation_step graph imr mmr ?dr ?an 0 (initial_state pop r1) = Inl e \<and> ?run = Inl e"
    if h: "0 < generations \<and> 2 \<le> final_path_size \<and> initial_pop_size < 3"
  proof -
    from h initial_population_total [of final_path_size initial_pop_size graph
        start_attraction end_attraction ?an r]
    obtain pop r1 where init: "?init = Inr (pop, r1)" and len: "length pop \<le> nat initial_pop_size"
      by blast
    have "nat initial_pop_size < 3" using h by linarith
    with len have "length pop < 3" by linarith
    then have "length (population (initial_state pop r1)) < 3"
      by (simp add: initial_state_def)
    from small_population_step_fails [OF this, of graph imr mmr ?dr ?an 0]
    obtain e where "generation_step graph imr mmr ?dr ?an 0 (initial_state pop r1) = Inl e"
      by blast
    with init run_first h show ?thesis by blast
  qed
  have nostart: "\<exists>pop r1. ?init = Inr (pop, r1) \<and>
         generation_step graph imr mmr ?dr ?an 0 (initial_state pop r1) = Inl KeyError \<and>
         ?run = Inl KeyError"
    if h: "0 < generations \<and> 2 \<le> final_path_size \<and> 0 < initial_pop_size \<and>
      start_attraction \<notin> fst ` set graph"
  proof -
    from h initial_population_total [of final_path_size initial_pop_size graph
        start_attraction end_attraction ?an r]
    obtain pop r1 where init: "?init = Inr (pop, r1)" and ne: "pop \<noteq> []"
      and paths: "\<forall>p \<in> set pop. 2 \<le> length p \<and> hd p = start_attraction"
      by blast
    from ne obtain p rest where pop: "pop = p # rest" by (cases pop) auto
    with paths have "2 \<le> length p" "hd p \<notin> fst ` set graph" using h by auto
    then have "calculate_path_distance graph p = Inl KeyError"
      by (rule missing_start_distance)
    then have "rank_loop graph (enumerate 0 (population (initial_state pop r1))) = Inl KeyError"
      by (simp add: initial_state_def pop)
    then have "generation_step graph imr mmr ?dr ?an 0 (initial_state pop r1) = Inl KeyError"
      by (simp add: generation_step_def)
    with init run_first h show ?thesis by blast
  qed
  have negative: "?run = Inr ([], PInf)" if h: "generations < 0 \<and> 2 \<le> final_path_size"
  proof -
    from h initial_population_total [of final_path_size initial_pop_size graph
        start_attraction end_attraction ?an r]
    obtain pop r1 where init: "?init = Inr (pop, r1)" by blast
    then show ?thesis using h by (simp add: run_genetic_algorithm_def initial_state_def)
  qed
  show ?thesis
    using zero short small nostart negative by blast
qed

theorem run_genetic_algorithm_malformed_witness:
  "run_genetic_algorithm graph_four 4 ''A'' ''E'' 3 0 (1/2) (1/10) [''A'', ''E''] []
     = Inl ZeroDivisionError \<and>
   run_genetic_algorithm graph_four 4 ''A'' ''E'' 1 1 (1/2) (1/10) [''A'', ''E''] []
     = Inl ValueError \<and>
   (\<exists>e. run_genetic_algorithm graph_four 2 ''A'' ''E'' 3 1 (1/2) (1/10) [''A'', ''E''] [2, 1]
     = Inl e) \<and>
   run_genetic_algorithm graph_four 4 ''X'' ''E'' 3 1 (1/2) (1/10) [''X'', ''E''] []
     = Inl KeyError \<and>
   run_genetic_algorithm graph_four 4 ''A'' ''E'' 3 (- 1) (1/2) (1/10) [''A'', ''E''] []
     = Inr ([], PInf)"
proof -
  have c1: "run_genetic_algorithm graph_four 4 ''A'' ''E'' 3 0 (1/2) (1/10) [''A'', ''E''] []
     = Inl ZeroDivisionError"
    by (rule run_genetic_algorithm_malformed [THEN conjunct1, rule_format]) simp
  have c2: "run_genetic_algorithm graph_four 4 ''A'' ''E'' 1 1 (1/2) (1/10) [''A'', ''E''] []
     = Inl ValueError"
    by (rule run_genetic_algorithm_malformed
          [THEN conjunct2, THEN conjunct1, rule_format, THEN conjunct2]) simp
  have "\<exists>pop r1 e.
      CreateInitialPopulation 2 graph_four ''A'' ''E'' 3 [''A'', ''E''] [2, 1] = Inr (pop, r1) \<and>
      generation_step graph_four (1/2) (1/10) ((1/2 - 1/10) / real_of_int 1) [''A'', ''E''] 0
        (initial_state pop r1) = Inl e \<and>
      run_genetic_algorithm graph_four 2 ''A'' ''E'' 3 1 (1/2) (1/10) [''A'', ''E''] [2, 1] = Inl e"
    by (rule run_genetic_algorithm_malformed
          [THEN conjunct2, THEN conjunct2, THEN conjunct1, rule_format]) simp
  then have c3: "\<exists>e. run_genetic_algorithm graph_four 2 ''A'' ''E'' 3 1 (1/2) (1/10)
      [''A'', ''E''] [2, 1] = Inl e"
    by blast
  have "\<exists>pop r1.
      CreateInitialPopulation 4 graph_four ''X'' ''E'' 3 [''X'', ''E''] [] = Inr (pop, r1) \<and>
      generation_step graph_four (1/2) (1/10) ((1/2 - 1/10) / real_of_int 1) [''X'', ''E''] 0
        (initial_state pop r1) = Inl KeyError \<and>
      run_genetic_algorithm graph_four 4 ''X'' ''E'' 3 1 (1/2) (1/10) [''X'', ''E''] []
        = Inl KeyError"
    by (rule run_genetic_algorithm_malformed
          [THEN conjunct2, THEN conjunct2, THEN conjunct2, THEN conjunct1, rule_format])
       (simp add: graph_four_def)
  then have c4: "run_genetic_algorithm graph_four 4 ''X'' ''E'' 3 1 (1/2) (1/10) [''X'', ''E''] []
      = Inl KeyError"
    by blast
  have c5: "run_genetic_algorithm graph_four 4 ''A'' ''E'' 3 (- 1) (1/2) (1/10) [''A'', ''E''] []
     = Inr ([], PInf)"
    by (rule run_genetic_algorithm_malformed
          [THEN conjunct2, THEN conjunct2, THEN conjunct2, THEN conjunct2, rule_format]) simp
  from c1 c2 c3 c4 c5 show ?thesis by (intro conjI)
qed

text \<open>
  C4 as stated fails: a negative generation count is not rejected, and an end attraction
  that is no key of the graph is never noticed (the end is only ever looked up as a
  neighbour), so the run returns a result. A population of two does fail, but inside the
  first generation, not before it.
\<close>

theorem run_genetic_algorithm_malformed_counterexample:
  "run_genetic_algorithm graph_four 4 ''A'' ''E'' 3 (- 1) (1/2) (1/10) [''A'', ''E''] [2, 1, 0, 3]
     = Inr ([], PInf) \<and>
   ''E'' \<notin> fst ` set graph_no_end_key \<and>
   run_genetic_algorithm graph_no_end_key 3 ''A'' ''E'' 3 1 (1/2) (1/10) [''A'', ''E''] [2, 1, 0]
     = Inr ([''A'', ''b'', ''E''], Fin 4) \<and>
   CreateInitialPopulation 2 graph_four ''A'' ''E'' 3 [''A'', ''E''] [2, 1]
     = Inr ([[''A'', ''d'', ''E''], [''A'', ''c'', ''E'']], []) \<and>
   generation_step graph_four (1/2) (1/10) (2/5) [''A'', ''E''] 0
     (initial_state [[''A'', ''d'', ''E''], [''A'', ''c'', ''E'']] []) = Inl ValueError"
  by code_simp

end
